theory Spec2Isabelle
  imports Main "HOL-Library.AList"
begin

section \<open>Data model\<close>

text \<open>
  The route finder computes with JavaScript numbers, which are IEEE 754 doubles: their
  addition rounds, is not associative and can overflow to \<^verbatim>\<open>Infinity\<close>. The model does not
  fix this arithmetic. It takes the numbers as a type \<open>'n\<close> and the operations the code
  uses on them as a parameter \<open>ar\<close>: \<open>js_plus\<close> is \<^verbatim>\<open>+\<close>, \<open>js_less\<close> is \<^verbatim>\<open><\<close>, \<open>js_zero\<close> is
  \<^verbatim>\<open>0\<close> and \<open>js_infinity\<close> is \<^verbatim>\<open>Infinity\<close>. A read of an absent map key through
  \<^verbatim>\<open>get(k)!\<close> yields \<^verbatim>\<open>undefined\<close>, which \<^verbatim>\<open>+\<close> and \<^verbatim>\<open><\<close> convert to \<^verbatim>\<open>NaN\<close>;
  \<open>js_undefined\<close> is that operand. Nothing is assumed about the operations, so what is
  proved for every \<open>ar\<close> holds for the doubles.
\<close>

record 'n arith =
  js_plus :: "'n \<Rightarrow> 'n \<Rightarrow> 'n"
  js_less :: "'n \<Rightarrow> 'n \<Rightarrow> bool"
  js_zero :: 'n
  js_infinity :: 'n
  js_undefined :: 'n

text \<open>
  One arithmetic to compute examples with: the integers with \<^verbatim>\<open>Infinity\<close> and \<^verbatim>\<open>NaN\<close>,
  added and compared exactly. The doubles agree with it as long as every number that
  occurs is an integer of magnitude below \<open>2^53\<close>, as in the examples of this theory; they
  do not agree with it beyond.
\<close>

datatype number = Num int | Infinity | NaN

fun add :: "number \<Rightarrow> number \<Rightarrow> number" where
  "add (Num a) (Num b) = Num (a + b)"
| "add NaN _ = NaN"
| "add _ NaN = NaN"
| "add Infinity _ = Infinity"
| "add _ Infinity = Infinity"

fun lt :: "number \<Rightarrow> number \<Rightarrow> bool" where
  "lt (Num a) (Num b) = (a < b)"
| "lt (Num a) Infinity = True"
| "lt _ _ = False"

definition int_arith :: "number arith" where
  "int_arith =
     \<lparr>js_plus = add, js_less = lt, js_zero = Num 0, js_infinity = Infinity, js_undefined = NaN\<rparr>"

text \<open>
  The DTOs of the request. The fields \<^verbatim>\<open>from\<close>, \<^verbatim>\<open>to\<close> and \<^verbatim>\<open>end\<close> are named
  \<open>from_node\<close>, \<open>to_node\<close> and \<open>end_node\<close> here. The two lists of the constraints
  are arrays by the DTO's type; the defaults that findOptimalPath gives them when they
  are undefined do not arise.
\<close>

record 'n EdgeDto =
  from_node :: string
  to_node :: string
  cost :: 'n

record ConstraintsDto =
  blockedNodes :: "string list"
  requiredStops :: "string list"

record 'n PathRequestDto =
  start :: string
  end_node :: string
  nodes :: "string list"
  edges :: "'n EdgeDto list"
  constraints :: ConstraintsDto

record 'n PathResult =
  path :: "string list"
  totalCost :: 'n

text \<open>
  Every failure of the service is an \<^verbatim>\<open>HttpException\<close> carrying a message and a status.
  \<open>TypeError\<close> stands for the runtime error of calling a method on \<^verbatim>\<open>undefined\<close>, which
  a non-null assertion \<^verbatim>\<open>graph.get(k)!.set(...)\<close> would raise on an absent key.
\<close>

datatype exception = HttpException string nat | TypeError

definition BAD_REQUEST :: nat where
  "BAD_REQUEST = 400"

text \<open>A \<^verbatim>\<open>Map<string, Map<string, number>>\<close> in insertion order, which is its iteration order.\<close>

type_synonym 'n neighbors = "(string \<times> 'n) list"
type_synonym 'n graph = "(string \<times> 'n neighbors) list"
type_synonym 'n distances = "string \<rightharpoonup> 'n"
type_synonym previous = "string \<rightharpoonup> string"

section \<open>Helpers of the JavaScript runtime\<close>

text \<open>\<^verbatim>\<open>Array.prototype.join\<close>; the string conversion of an array joins with a comma.\<close>

fun join :: "string \<Rightarrow> string list \<Rightarrow> string" where
  "join sep [] = []"
| "join sep [x] = x"
| "join sep (x # y # ys) = x @ sep @ join sep (y # ys)"

definition array_toString :: "string list \<Rightarrow> string" where
  "array_toString xs = join '','' xs"

text \<open>\<^verbatim>\<open>distances.get(k)!\<close>: the assertion has no runtime effect, an absent key reads as undefined.\<close>

definition get_number :: "'n arith \<Rightarrow> 'n distances \<Rightarrow> string \<Rightarrow> 'n" where
  "get_number ar d k = (case d k of None \<Rightarrow> js_undefined ar | Some v \<Rightarrow> v)"

text \<open>Truthiness of a \<^verbatim>\<open>string | null\<close>: null and the empty string are falsy.\<close>

definition truthy :: "string option \<Rightarrow> bool" where
  "truthy v = (case v of None \<Rightarrow> False | Some s \<Rightarrow> s \<noteq> [])"

section \<open>validateNodesExist\<close>

definition validateNodesExist ::
  "string list \<Rightarrow> 'n EdgeDto list \<Rightarrow> string list \<Rightarrow> exception + unit" where
  "validateNodesExist validNodes es mustExistNodes =
     (let missing = filter (\<lambda>node. node \<notin> set validNodes) mustExistNodes in
      if length missing \<noteq> 0 then
        Inl (HttpException (''Missing required nodes: '' @ join '', '' missing) BAD_REQUEST)
      else
        let invalidEdgeNodes =
              filter (\<lambda>n. n \<notin> set validNodes)
                (concat (map (\<lambda>e. [from_node e, to_node e]) es)) in
        if length invalidEdgeNodes \<noteq> 0 then
          Inl (HttpException (''Invalid edge nodes: '' @ join '', '' invalidEdgeNodes) BAD_REQUEST)
        else Inr ())"

section \<open>buildGraph\<close>

text \<open>
  The statements of the loop body. \<^verbatim>\<open>graph.set\<close> on a present key keeps the key's
  position, which is what \<open>AList.update\<close> does. \<open>ensure_node k\<close> is
  \<^verbatim>\<open>if (!graph.has(k)) graph.set(k, new Map())\<close> and \<open>set_neighbor k n c\<close> is
  \<^verbatim>\<open>graph.get(k)!.set(n, c)\<close>, which mutates the inner map in place and raises a
  TypeError when the key is absent.
\<close>

definition ensure_node :: "string \<Rightarrow> 'n graph \<Rightarrow> 'n graph" where
  "ensure_node k g = (if map_of g k = None then AList.update k [] g else g)"

definition set_neighbor :: "string \<Rightarrow> string \<Rightarrow> 'n \<Rightarrow> 'n graph \<Rightarrow> exception + 'n graph" where
  "set_neighbor k n c g =
     (case map_of g k of
        None \<Rightarrow> Inl TypeError
      | Some m \<Rightarrow> Inr (AList.update k (AList.update n c m) g))"

definition buildGraph_step :: "string list \<Rightarrow> 'n graph \<Rightarrow> 'n EdgeDto \<Rightarrow> exception + 'n graph" where
  "buildGraph_step blocked g e =
     (if from_node e \<in> set blocked \<or> to_node e \<in> set blocked then Inr g
      else
        (case set_neighbor (from_node e) (to_node e) (cost e)
                (ensure_node (to_node e) (ensure_node (from_node e) g)) of
           Inl err \<Rightarrow> Inl err
         | Inr g' \<Rightarrow> set_neighbor (to_node e) (from_node e) (cost e) g'))"

fun buildGraph_loop :: "string list \<Rightarrow> 'n graph \<Rightarrow> 'n EdgeDto list \<Rightarrow> exception + 'n graph" where
  "buildGraph_loop blocked g [] = Inr g"
| "buildGraph_loop blocked g (e # es) =
     (case buildGraph_step blocked g e of
        Inl err \<Rightarrow> Inl err
      | Inr g' \<Rightarrow> buildGraph_loop blocked g' es)"

definition buildGraph :: "'n EdgeDto list \<Rightarrow> string list \<Rightarrow> exception + 'n graph" where
  "buildGraph es blocked = buildGraph_loop blocked [] es"

section \<open>Single-pair search\<close>

text \<open>The body of the loop of getMinDistanceNode, on the pair (minNode, minDistance).\<close>

definition minStep ::
  "'n arith \<Rightarrow> 'n distances \<Rightarrow> string option \<times> 'n \<Rightarrow> string \<Rightarrow> string option \<times> 'n" where
  "minStep ar d acc node =
     (case acc of (minNode, minDistance) \<Rightarrow>
        (let dist = get_number ar d node in
         if js_less ar dist minDistance then (Some node, dist) else (minNode, minDistance)))"

definition getMinDistanceNode :: "'n arith \<Rightarrow> string list \<Rightarrow> 'n distances \<Rightarrow> string option" where
  "getMinDistanceNode ar unvisited d =
     fst (foldl (minStep ar d) (None, js_infinity ar) unvisited)"

text \<open>The body of the loop of processNeighbors, on the pair (distances, previous).\<close>

definition relax ::
  "'n arith \<Rightarrow> string \<Rightarrow> string list \<Rightarrow> 'n distances \<times> previous \<Rightarrow> string \<times> 'n \<Rightarrow>
   'n distances \<times> previous" where
  "relax ar current unvisited dp nc =
     (case dp of (d, p) \<Rightarrow> (case nc of (neighbor, c) \<Rightarrow>
        (if neighbor \<notin> set unvisited then (d, p)
         else
           (let newDist = js_plus ar (get_number ar d current) c in
            if js_less ar newDist (get_number ar d neighbor)
            then (d(neighbor \<mapsto> newDist), p(neighbor \<mapsto> current))
            else (d, p)))))"

definition processNeighbors ::
  "'n arith \<Rightarrow> string \<Rightarrow> 'n graph \<Rightarrow> string list \<Rightarrow> 'n distances \<times> previous \<Rightarrow>
   'n distances \<times> previous" where
  "processNeighbors ar current g unvisited dp =
     (let nbrs = (case map_of g current of None \<Rightarrow> [] | Some m \<Rightarrow> m)
      in foldl (relax ar current unvisited) dp nbrs)"

text \<open>
  The while loop of dijkstra. The set of unvisited nodes is the list of its elements in
  insertion order, the order in which getMinDistanceNode goes through it. The loop breaks
  when \<^verbatim>\<open>!current\<close> holds, that is when no node was selected or the selected node is
  the empty string, and when the selected node is the end.
\<close>

function dijkstra_loop ::
  "'n arith \<Rightarrow> 'n graph \<Rightarrow> string \<Rightarrow> string list \<Rightarrow> 'n distances \<times> previous \<Rightarrow>
   'n distances \<times> previous" where
  "dijkstra_loop ar g dst unvisited dp =
     (if length unvisited > 0 then
        (case getMinDistanceNode ar unvisited (fst dp) of
           None \<Rightarrow> dp
         | Some current \<Rightarrow>
             if current = [] \<or> current = dst then dp
             else dijkstra_loop ar g dst (removeAll current unvisited)
                    (processNeighbors ar current g (removeAll current unvisited) dp))
      else dp)"
  by pat_completeness auto
termination
proof (relation "measure (\<lambda>(ar, g, dst, unvisited, dp). length unvisited)", goal_cases)
  case 1
  show ?case by simp
next
  case (2 ar g dst unvisited dp current)
  have step: "fst (foldl (minStep ar (fst dp)) acc xs) = Some current \<Longrightarrow>
                current \<in> set xs \<or> fst acc = Some current" for acc xs
    by (induction xs arbitrary: acc) (fastforce simp: minStep_def Let_def split: if_splits prod.splits)+
  from 2 step [of "(None, js_infinity ar)" unvisited] have "current \<in> set unvisited"
    by (simp add: getMinDistanceNode_def)
  then have "length (removeAll current unvisited) < length unvisited"
    by (simp add: length_removeAll_less)
  then show ?case by simp
qed

declare dijkstra_loop.simps [simp del]

text \<open>
  The walk back over the predecessors. Nothing in the function bounds the walk, so it is
  a partial function: \<open>None\<close> is a walk that never ends.
\<close>

partial_function (option) reconstructPath_loop ::
  "string \<Rightarrow> previous \<Rightarrow> string list \<Rightarrow> string option \<Rightarrow> (string list \<times> string option) option" where
  "reconstructPath_loop src p acc current =
     (case current of
        None \<Rightarrow> Some (acc, current)
      | Some c \<Rightarrow>
          if c \<noteq> [] \<and> c \<noteq> src
          then reconstructPath_loop src p (c # acc)
                 (case p c of None \<Rightarrow> None | Some q \<Rightarrow> if q = [] then None else Some q)
          else Some (acc, current))"

declare reconstructPath_loop.simps [code]

definition reconstructPath :: "string \<Rightarrow> string \<Rightarrow> previous \<Rightarrow> string list option option" where
  "reconstructPath src dst p =
     (case reconstructPath_loop src p [] (Some dst) of
        None \<Rightarrow> None
      | Some (acc, current) \<Rightarrow>
          if \<not> truthy current then Some None else Some (Some (src # acc)))"

text \<open>The distances before the loop: infinite for every key of the graph, then 0 for the start.\<close>

definition init_distances :: "'n arith \<Rightarrow> string list \<Rightarrow> string \<Rightarrow> 'n distances" where
  "init_distances ar unvisited src =
     (foldl (\<lambda>d node. d(node \<mapsto> js_infinity ar)) Map.empty unvisited)(src \<mapsto> js_zero ar)"

text \<open>
  The result is \<open>None\<close> when the call does not return, \<open>Some None\<close> when it returns null
  and \<open>Some (Some (path, cost))\<close> when it returns a segment.
\<close>

definition dijkstra ::
  "'n arith \<Rightarrow> 'n graph \<Rightarrow> string \<Rightarrow> string \<Rightarrow> (string list \<times> 'n) option option" where
  "dijkstra ar g src dst =
     (let unvisited = map fst g;
          dp = dijkstra_loop ar g dst unvisited (init_distances ar unvisited src, Map.empty)
      in case reconstructPath src dst (snd dp) of
           None \<Rightarrow> None
         | Some None \<Rightarrow> Some None
         | Some (Some pth) \<Rightarrow> Some (Some (pth, get_number ar (fst dp) dst)))"

section \<open>Required stops\<close>

text \<open>
  The for loop of findPathWithRequiredStops over the index \<open>i\<close> of the sequence, with
  the path and the cost accumulated so far: \<^verbatim>\<open>totalCost += segment.cost\<close> adds each
  segment's cost to the sum of the earlier ones, from the left.
\<close>

function findPath_loop ::
  "'n arith \<Rightarrow> 'n graph \<Rightarrow> string list \<Rightarrow> nat \<Rightarrow> string list \<Rightarrow> 'n \<Rightarrow>
   (string list \<times> 'n) option option" where
  "findPath_loop ar g sq i accPath accCost =
     (if i < length sq - 1 then
        (case dijkstra ar g (sq ! i) (sq ! (i + 1)) of
           None \<Rightarrow> None
         | Some None \<Rightarrow> Some None
         | Some (Some (pth, c)) \<Rightarrow>
             findPath_loop ar g sq (i + 1)
               (if i = 0 then pth else accPath @ drop 1 pth) (js_plus ar accCost c))
      else Some (Some (accPath, accCost)))"
  by pat_completeness auto
termination
  by (relation "measure (\<lambda>(ar, g, sq, i, accPath, accCost). length sq - 1 - i)") auto

declare findPath_loop.simps [simp del]

definition findPathWithRequiredStops ::
  "'n arith \<Rightarrow> 'n graph \<Rightarrow> string \<Rightarrow> string \<Rightarrow> string list \<Rightarrow> (string list \<times> 'n) option option" where
  "findPathWithRequiredStops ar g src dst stops =
     findPath_loop ar g ([src] @ stops @ [dst]) 0 [] (js_zero ar)"

section \<open>findOptimalPath\<close>

definition findOptimalPath ::
  "'n arith \<Rightarrow> 'n PathRequestDto \<Rightarrow> (exception + 'n PathResult) option" where
  "findOptimalPath ar request =
     (let blocked = blockedNodes (constraints request);
          stops = requiredStops (constraints request)
      in case validateNodesExist (nodes request) (edges request) (stops @ [end_node request]) of
           Inl err \<Rightarrow> Some (Inl err)
         | Inr _ \<Rightarrow>
             (case buildGraph (edges request) blocked of
                Inl err \<Rightarrow> Some (Inl err)
              | Inr g \<Rightarrow>
                  (case findPathWithRequiredStops ar g (start request) (end_node request) stops of
                     None \<Rightarrow> None
                   | Some None \<Rightarrow>
                       Some (Inl (HttpException
                         (''No valid path found that satisfies all constraints of ''
                            @ array_toString stops) BAD_REQUEST))
                   | Some (Some (pth, c)) \<Rightarrow> Some (Inr \<lparr>path = pth, totalCost = c\<rparr>))))"

section \<open>Vocabulary of the specification\<close>

text \<open>
  \<open>edge_cost g a b\<close> is \<^verbatim>\<open>graph.get(a)?.get(b)\<close>, the cost recorded for the ordered pair.
  An edge is blocked when one of its endpoints is. \<open>graph_inv\<close> says that no key and no
  neighbor key is blocked and that no key has an empty neighbor map.
\<close>

definition edge_cost :: "'n graph \<Rightarrow> string \<Rightarrow> string \<Rightarrow> 'n option" where
  "edge_cost g a b = (case map_of g a of None \<Rightarrow> None | Some m \<Rightarrow> map_of m b)"

definition blocked_edge :: "string list \<Rightarrow> 'n EdgeDto \<Rightarrow> bool" where
  "blocked_edge blocked e = (from_node e \<in> set blocked \<or> to_node e \<in> set blocked)"

definition graph_inv :: "string list \<Rightarrow> 'n graph \<Rightarrow> bool" where
  "graph_inv blocked g =
     (\<forall>km \<in> set g. fst km \<notin> set blocked \<and> snd km \<noteq> [] \<and>
         (\<forall>nc \<in> set (snd km). fst nc \<notin> set blocked))"

definition unblocked :: "string list \<Rightarrow> 'n graph \<Rightarrow> bool" where
  "unblocked blocked g =
     (distinct (map fst g) \<and>
      (\<forall>km \<in> set g. fst km \<notin> set blocked \<and> (\<forall>nc \<in> set (snd km). fst nc \<notin> set blocked)))"

definition nonempty_except :: "string set \<Rightarrow> 'n graph \<Rightarrow> bool" where
  "nonempty_except S g = (\<forall>km \<in> set g. fst km \<notin> S \<longrightarrow> snd km \<noteq> [])"

text \<open>
  The three failures of the service are told apart by the text of their messages.
  \<open>missingNodes\<close> and \<open>invalidEdgeNodes\<close> are the lists the two messages of
  \<open>validateNodesExist\<close> carry, in terms of the request.
\<close>

definition isMissingNodes :: "exception \<Rightarrow> bool" where
  "isMissingNodes x =
     (case x of HttpException msg status \<Rightarrow> take 24 msg = ''Missing required nodes: ''
      | TypeError \<Rightarrow> False)"

definition isInvalidEdgeNodes :: "exception \<Rightarrow> bool" where
  "isInvalidEdgeNodes x =
     (case x of HttpException msg status \<Rightarrow> take 20 msg = ''Invalid edge nodes: ''
      | TypeError \<Rightarrow> False)"

definition NoPathFound :: "string list \<Rightarrow> exception" where
  "NoPathFound stops =
     HttpException (''No valid path found that satisfies all constraints of '' @ array_toString stops)
       BAD_REQUEST"

definition missingNodes :: "'n PathRequestDto \<Rightarrow> string list" where
  "missingNodes r =
     filter (\<lambda>n. n \<notin> set (nodes r)) (requiredStops (constraints r) @ [end_node r])"

definition invalidEdgeNodes :: "'n PathRequestDto \<Rightarrow> string list" where
  "invalidEdgeNodes r =
     filter (\<lambda>n. n \<notin> set (nodes r)) (concat (map (\<lambda>e. [from_node e, to_node e]) (edges r)))"

text \<open>
  The consecutive pairs of \<open>waypoints\<close> are the segments of a request. \<open>stitch\<close> keeps
  the first segment whole and drops the first node of every later one, and
  \<open>segments_found\<close> says that the single-pair search returns the given segment on every
  consecutive pair.
\<close>

definition waypoints :: "string \<Rightarrow> string list \<Rightarrow> string \<Rightarrow> string list" where
  "waypoints src stops dst = [src] @ stops @ [dst]"

definition stitch :: "string list list \<Rightarrow> string list" where
  "stitch ps = (case ps of [] \<Rightarrow> [] | p # rest \<Rightarrow> p @ concat (map (drop 1) rest))"

definition segments_found ::
  "'n arith \<Rightarrow> 'n graph \<Rightarrow> string list \<Rightarrow> (string list \<times> 'n) list \<Rightarrow> bool" where
  "segments_found ar g sq segs =
     list_all2 (\<lambda>ab seg. dijkstra ar g (fst ab) (snd ab) = Some (Some seg)) (zip sq (tl sq)) segs"

text \<open>
  Graphs with integer costs, for the examples and for the exact arithmetic.
  \<open>number_graph\<close> turns the costs into numbers of \<open>int_arith\<close>. \<open>path_cost\<close> is the
  cost of a node sequence as a path of the graph, the exact sum of the costs of its
  edges: \<open>None\<close> when two neighbors of the sequence are not joined by a recorded edge.
\<close>

definition num_edge :: "string \<times> int \<Rightarrow> string \<times> number" where
  "num_edge nc = (fst nc, Num (snd nc))"

definition number_graph :: "int graph \<Rightarrow> number graph" where
  "number_graph g = map (\<lambda>km. (fst km, map num_edge (snd km))) g"

fun path_cost :: "int graph \<Rightarrow> string list \<Rightarrow> int option" where
  "path_cost g [] = None"
| "path_cost g [a] = Some 0"
| "path_cost g (a # b # rest) =
     (case edge_cost g a b of
        None \<Rightarrow> None
      | Some c \<Rightarrow> (case path_cost g (b # rest) of None \<Rightarrow> None | Some d \<Rightarrow> Some (c + d)))"

text \<open>
  The predecessor map of a search never leads in a circle: a predecessor is always a
  settled node, and along settled nodes a rank decreases. \<open>next_node\<close> is
  \<^verbatim>\<open>previous.get(c) || null\<close>.
\<close>

definition prev_inv :: "string list \<Rightarrow> previous \<Rightarrow> bool" where
  "prev_inv U p = (\<exists>r :: string \<Rightarrow> nat. \<forall>v u. p v = Some u \<longrightarrow> u \<notin> set U \<and> (v \<notin> set U \<longrightarrow> r u < r v))"

definition next_node :: "previous \<Rightarrow> string \<Rightarrow> string option" where
  "next_node p c = (case p c of None \<Rightarrow> None | Some q \<Rightarrow> if q = [] then None else Some q)"

text \<open>
  What the search from a node to itself needs of the arithmetic: \<^verbatim>\<open>0 < Infinity\<close>
  holds and \<^verbatim>\<open>0 < 0\<close>, \<^verbatim>\<open>Infinity < Infinity\<close> and \<^verbatim>\<open>Infinity < 0\<close> do not, as
  with the doubles.
\<close>

definition basic_order :: "'n arith \<Rightarrow> bool" where
  "basic_order ar =
     (js_less ar (js_zero ar) (js_infinity ar) \<and>
      \<not> js_less ar (js_zero ar) (js_zero ar) \<and>
      \<not> js_less ar (js_infinity ar) (js_infinity ar) \<and>
      \<not> js_less ar (js_infinity ar) (js_zero ar))"

text \<open>The postcondition of the walk back, for the nodes it collects.\<close>

definition walk_post ::
  "string \<Rightarrow> previous \<Rightarrow> string list \<Rightarrow> string option \<Rightarrow> string list \<times> string option \<Rightarrow> bool" where
  "walk_post src p acc cur res =
     ((cur = None \<longrightarrow> res = (acc, None)) \<and>
      (truthy (snd res) \<longrightarrow> set (fst res) \<subseteq> set acc \<union> dom p))"

text \<open>
  The vocabulary of the correctness of the search in the exact arithmetic \<open>int_arith\<close>,
  on graphs with integer costs. A graph is well formed when its keys and the keys of
  each adjacency map are distinct, as the keys of a \<^verbatim>\<open>Map\<close> are. \<open>is_path g a b pth\<close>
  says that \<open>pth\<close> leads from \<open>a\<close> to \<open>b\<close> along recorded edges.
\<close>

definition wf_graph :: "int graph \<Rightarrow> bool" where
  "wf_graph g = (distinct (map fst g) \<and> (\<forall>km \<in> set g. distinct (map fst (snd km))))"

definition nonneg_costs :: "int graph \<Rightarrow> bool" where
  "nonneg_costs g = (\<forall>km \<in> set g. \<forall>nc \<in> set (snd km). 0 \<le> snd nc)"

definition is_path :: "int graph \<Rightarrow> string \<Rightarrow> string \<Rightarrow> string list \<Rightarrow> bool" where
  "is_path g a b pth = (pth \<noteq> [] \<and> hd pth = a \<and> last pth = b \<and> path_cost g pth \<noteq> None)"

text \<open>
  The invariant of the search loop, for the unvisited nodes \<open>U\<close>, the distances and the
  predecessors: every key has a distance, which is a non-negative number or infinite;
  the start has distance 0 and no predecessor; a predecessor is a settled node whose
  distance plus the cost of the edge is the distance of the node; a node with a finite
  distance is the start or has a predecessor; settled nodes have finite distances, not
  above those of the unvisited nodes; and every edge that leaves a settled node is
  relaxed. \<open>relaxed\<close> describes what processNeighbors does to the two maps,
  and \<open>search_done\<close> the state in which the loop stops.
\<close>

definition relaxed ::
  "string list \<Rightarrow> string \<Rightarrow> int \<Rightarrow> (string \<times> int) list \<Rightarrow>
   number distances \<times> previous \<Rightarrow> number distances \<times> previous \<Rightarrow> bool" where
  "relaxed U c dc ns dp dp' =
     ((\<forall>v. (fst dp' v = fst dp v \<and> snd dp' v = snd dp v) \<or>
           (v \<in> set U \<and> snd dp' v = Some c \<and>
            (\<exists>w. (v, w) \<in> set ns \<and> fst dp' v = Some (Num (dc + w)) \<and>
                 lt (Num (dc + w)) (get_number int_arith (fst dp) v)))) \<and>
      (\<forall>v w. (v, w) \<in> set ns \<longrightarrow> v \<in> set U \<longrightarrow>
             \<not> lt (Num (dc + w)) (get_number int_arith (fst dp') v)))"

definition search_inv ::
  "int graph \<Rightarrow> string \<Rightarrow> string list \<Rightarrow> number distances \<times> previous \<Rightarrow> bool" where
  "search_inv g src U dp =
     (set U \<subseteq> fst ` set g \<and>
      (\<forall>v \<in> fst ` set g. get_number int_arith (fst dp) v \<noteq> NaN) \<and>
      get_number int_arith (fst dp) src = Num 0 \<and> snd dp src = None \<and>
      (\<forall>v x. get_number int_arith (fst dp) v = Num x \<longrightarrow> 0 \<le> x) \<and>
      (\<forall>v u. snd dp v = Some u \<longrightarrow>
         u \<in> fst ` set g \<and> u \<notin> set U \<and> u \<noteq> [] \<and>
         (\<exists>du c. get_number int_arith (fst dp) u = Num du \<and> edge_cost g u v = Some c \<and>
                 get_number int_arith (fst dp) v = Num (du + c))) \<and>
      (\<forall>v x. get_number int_arith (fst dp) v = Num x \<longrightarrow> v = src \<or> snd dp v \<noteq> None) \<and>
      (\<forall>u \<in> fst ` set g - set U. \<exists>du. get_number int_arith (fst dp) u = Num du) \<and>
      (\<forall>u \<in> fst ` set g - set U. \<forall>v \<in> set U. \<forall>du dv.
         get_number int_arith (fst dp) u = Num du \<longrightarrow>
         get_number int_arith (fst dp) v = Num dv \<longrightarrow> du \<le> dv) \<and>
      (\<forall>u \<in> fst ` set g - set U. \<forall>v \<in> fst ` set g. \<forall>c du.
         edge_cost g u v = Some c \<longrightarrow> get_number int_arith (fst dp) u = Num du \<longrightarrow>
         (\<exists>dv. get_number int_arith (fst dp) v = Num dv \<and> dv \<le> du + c)))"

definition search_done :: "string \<Rightarrow> string list \<Rightarrow> number distances \<Rightarrow> bool" where
  "search_done dst U d =
     ((\<forall>v \<in> set U. \<forall>a. get_number int_arith d v \<noteq> Num a) \<or>
      (\<exists>dd. get_number int_arith d dst = Num dd \<and>
            (\<forall>v \<in> set U. \<forall>dv. get_number int_arith d v = Num dv \<longrightarrow> dd \<le> dv)))"

text \<open>Example inputs, with integer costs.\<close>

definition example_edges :: "number EdgeDto list" where
  "example_edges =
     [\<lparr>from_node = ''A'', to_node = ''B'', cost = Num 1\<rparr>,
      \<lparr>from_node = ''B'', to_node = ''C'', cost = Num 2\<rparr>,
      \<lparr>from_node = ''C'', to_node = ''D'', cost = Num 3\<rparr>]"

definition request_missing :: "number PathRequestDto" where
  "request_missing =
     \<lparr>start = ''A'', end_node = ''Z'', nodes = [''A'', ''B''], edges = [],
      constraints = \<lparr>blockedNodes = [], requiredStops = [''X'', ''B'']\<rparr>\<rparr>"

definition request_invalid_edges :: "number PathRequestDto" where
  "request_invalid_edges =
     \<lparr>start = ''A'', end_node = ''B'', nodes = [''A'', ''B''],
      edges = [\<lparr>from_node = ''A'', to_node = ''C'', cost = Num 1\<rparr>,
               \<lparr>from_node = ''D'', to_node = ''B'', cost = Num 2\<rparr>,
               \<lparr>from_node = ''C'', to_node = ''A'', cost = Num 3\<rparr>],
      constraints = \<lparr>blockedNodes = [], requiredStops = []\<rparr>\<rparr>"

definition graph_with_empty_id :: "int graph" where
  "graph_with_empty_id =
     [(''A'', [('''', 1), (''C'', 10)]),
      ('''', [(''A'', 1), (''C'', 1)]),
      (''C'', [('''', 1), (''A'', 10)])]"

definition triangle :: "int graph" where
  "triangle =
     [(''A'', [(''B'', 1), (''C'', 4)]),
      (''B'', [(''A'', 1), (''C'', 2)]),
      (''C'', [(''A'', 4), (''B'', 2)])]"

text \<open>
  The requests of the two failing inputs that do not depend on the arithmetic, for an
  edge of any cost \<open>w\<close>.
\<close>

definition request_empty_id :: "'n \<Rightarrow> 'n PathRequestDto" where
  "request_empty_id w =
     \<lparr>start = '''', end_node = '''', nodes = ['''', ''B''],
      edges = [\<lparr>from_node = '''', to_node = ''B'', cost = w\<rparr>],
      constraints = \<lparr>blockedNodes = [], requiredStops = []\<rparr>\<rparr>"

definition request_blocked_start :: "'n \<Rightarrow> 'n PathRequestDto" where
  "request_blocked_start w =
     \<lparr>start = ''A'', end_node = ''A'', nodes = [''A'', ''B''],
      edges = [\<lparr>from_node = ''A'', to_node = ''B'', cost = w\<rparr>],
      constraints = \<lparr>blockedNodes = [''A''], requiredStops = []\<rparr>\<rparr>"

definition request_empty_id_undeclared :: "number PathRequestDto" where
  "request_empty_id_undeclared =
     \<lparr>start = '''', end_node = '''', nodes = [''A'', ''B''],
      edges = [\<lparr>from_node = ''A'', to_node = ''B'', cost = Num 1\<rparr>],
      constraints = \<lparr>blockedNodes = [], requiredStops = []\<rparr>\<rparr>"

definition request_unreachable_stop :: "number PathRequestDto" where
  "request_unreachable_stop =
     \<lparr>start = ''A'', end_node = ''C'', nodes = [''A'', ''B'', ''C'', ''D''],
      edges = [\<lparr>from_node = ''A'', to_node = ''B'', cost = Num 1\<rparr>,
               \<lparr>from_node = ''C'', to_node = ''D'', cost = Num 3\<rparr>],
      constraints = \<lparr>blockedNodes = [], requiredStops = [''B'', ''D'']\<rparr>\<rparr>"

definition request_through_empty_id :: "number PathRequestDto" where
  "request_through_empty_id =
     \<lparr>start = ''A'', end_node = ''C'', nodes = [''A'', '''', ''C''],
      edges = [\<lparr>from_node = ''A'', to_node = '''', cost = Num 1\<rparr>,
               \<lparr>from_node = '''', to_node = ''C'', cost = Num 1\<rparr>,
               \<lparr>from_node = ''A'', to_node = ''C'', cost = Num 10\<rparr>],
      constraints = \<lparr>blockedNodes = [], requiredStops = []\<rparr>\<rparr>"

definition request_start_undeclared :: "number PathRequestDto" where
  "request_start_undeclared =
     \<lparr>start = ''Q'', end_node = ''B'', nodes = [''A'', ''B''],
      edges = [\<lparr>from_node = ''A'', to_node = ''B'', cost = Num 1\<rparr>],
      constraints = \<lparr>blockedNodes = [], requiredStops = []\<rparr>\<rparr>"

definition stalled_search :: "number distances \<times> previous" where
  "stalled_search =
     ([''A'' \<mapsto> Num 0, '''' \<mapsto> Num 1, ''C'' \<mapsto> Num 10], ['''' \<mapsto> ''A'', ''C'' \<mapsto> ''A''])"

section \<open>Properties of buildGraph\<close>

lemma set_update_distinct:
  "distinct (map fst al) \<Longrightarrow> set (AList.update k v al) = insert (k, v) {x \<in> set al. fst x \<noteq> k}"
  by (induction al) (auto simp: rev_image_eqI)

lemma set_update_subset: "set (AList.update k v al) \<subseteq> insert (k, v) (set al)"
  by (induction al) auto

lemma ensure_node_present: "\<exists>m. map_of (ensure_node k g) k = Some m"
  by (cases "map_of g k") (simp_all add: ensure_node_def AList.update_conv')

lemma ensure_node_lookup: "k' \<noteq> k \<Longrightarrow> map_of (ensure_node k g) k' = map_of g k'"
  by (simp add: ensure_node_def AList.update_conv')

lemma ensure_node_lookup_same: "map_of (ensure_node k g) k = Some (case map_of g k of None \<Rightarrow> [] | Some m \<Rightarrow> m)"
  by (cases "map_of g k") (simp_all add: ensure_node_def AList.update_conv')

lemma ensure_node_keys: "fst ` set (ensure_node k g) = insert k (fst ` set g)"
  by (auto simp: ensure_node_def AList.dom_update map_of_eq_None_iff)

lemma unblocked_update:
  assumes "unblocked blocked g" "k \<notin> set blocked" "\<forall>nc \<in> set m. fst nc \<notin> set blocked"
  shows "unblocked blocked (AList.update k m g)"
  unfolding unblocked_def
proof (intro conjI ballI)
  show "distinct (map fst (AList.update k m g))"
    using assms(1) by (simp add: unblocked_def AList.distinct_update)
next
  fix km assume "km \<in> set (AList.update k m g)"
  then have c: "km = (k, m) \<or> km \<in> set g"
    using set_update_subset[of k m g] by blast
  from c show "fst km \<notin> set blocked"
    using assms(1,2) by (auto simp: unblocked_def)
  fix nc assume "nc \<in> set (snd km)"
  with c show "fst nc \<notin> set blocked"
    using assms(1,3) by (auto simp: unblocked_def)
qed

lemma ensure_node_unblocked:
  assumes "unblocked blocked g" "k \<notin> set blocked"
  shows "unblocked blocked (ensure_node k g)"
  using assms by (simp add: ensure_node_def unblocked_update)

lemma nonempty_except_update:
  assumes "distinct (map fst g)" "nonempty_except S g" "k \<in> T \<or> m \<noteq> []" "S - {k} \<subseteq> T"
  shows "nonempty_except T (AList.update k m g)"
  unfolding nonempty_except_def
proof (intro ballI impI)
  fix km assume "km \<in> set (AList.update k m g)" and nt: "fst km \<notin> T"
  then have "km = (k, m) \<or> (km \<in> set g \<and> fst km \<noteq> k)"
    by (simp add: set_update_distinct[OF assms(1)])
  then show "snd km \<noteq> []"
  proof
    assume "km = (k, m)"
    with nt assms(3) show ?thesis by auto
  next
    assume a: "km \<in> set g \<and> fst km \<noteq> k"
    with nt assms(4) have "fst km \<notin> S" by auto
    with a assms(2) show ?thesis by (simp add: nonempty_except_def)
  qed
qed

lemma ensure_node_nonempty:
  assumes "distinct (map fst g)" "nonempty_except S g"
  shows "nonempty_except (insert k S) (ensure_node k g)"
proof (cases "map_of g k = None")
  case True
  then show ?thesis
    using nonempty_except_update[OF assms, of k "insert k S" "[]"] by (auto simp: ensure_node_def)
next
  case False
  then show ?thesis using assms(2) by (auto simp: ensure_node_def nonempty_except_def)
qed

lemma set_neighbor_total:
  "map_of g k = Some m \<Longrightarrow> set_neighbor k n c g = Inr (AList.update k (AList.update n c m) g)"
  by (simp add: set_neighbor_def)

lemma set_neighbor_keys:
  "set_neighbor k n c g = Inr g' \<Longrightarrow> fst ` set g' = fst ` set g"
proof -
  assume "set_neighbor k n c g = Inr g'"
  then obtain m where m: "map_of g k = Some m" and g': "g' = AList.update k (AList.update n c m) g"
    by (auto simp: set_neighbor_def split: option.splits)
  from m have "k \<in> fst ` set g" by (metis map_of_eq_None_iff option.distinct(1))
  then show ?thesis by (auto simp: g' AList.dom_update)
qed

lemma set_neighbor_lookup:
  "set_neighbor k n c g = Inr g' \<Longrightarrow>
   map_of g' k' = (if k' = k then Some (AList.update n c (the (map_of g k))) else map_of g k')"
  by (auto simp: set_neighbor_def AList.update_conv' split: option.splits)

lemma set_neighbor_unblocked:
  assumes "unblocked blocked g" "k \<notin> set blocked" "n \<notin> set blocked" "set_neighbor k n c g = Inr g'"
  shows "unblocked blocked g'"
proof -
  from assms(4) obtain m where m: "map_of g k = Some m"
    and g': "g' = AList.update k (AList.update n c m) g"
    by (auto simp: set_neighbor_def split: option.splits)
  have "(k, m) \<in> set g" using map_of_SomeD[OF m] .
  with assms(1) have "\<forall>nc \<in> set m. fst nc \<notin> set blocked"
    by (auto simp: unblocked_def)
  then have "\<forall>nc \<in> set (AList.update n c m). fst nc \<notin> set blocked"
    using set_update_subset[of n c m] assms(3) by auto
  then show ?thesis
    unfolding g' using assms(1,2) by (intro unblocked_update)
qed

lemma set_neighbor_nonempty:
  assumes "distinct (map fst g)" "nonempty_except S g" "set_neighbor k n c g = Inr g'"
  shows "nonempty_except (S - {k}) g'"
proof -
  from assms(3) obtain m where g': "g' = AList.update k (AList.update n c m) g"
    by (auto simp: set_neighbor_def split: option.splits)
  show ?thesis
    unfolding g' by (rule nonempty_except_update[OF assms(1,2)]) auto
qed


lemma ensure_node_distinct: "distinct (map fst g) \<Longrightarrow> distinct (map fst (ensure_node k g))"
  by (simp add: ensure_node_def AList.distinct_update)

lemma ensure_node_lookup_if:
  "map_of (ensure_node k g) k' =
     (if k' = k then Some (case map_of g k of None \<Rightarrow> [] | Some m \<Rightarrow> m) else map_of g k')"
  by (simp add: ensure_node_lookup ensure_node_lookup_same)

lemma buildGraph_step_unblocked:
  assumes "\<not> blocked_edge blocked e"
  obtains g3 g' where
    "set_neighbor (from_node e) (to_node e) (cost e)
       (ensure_node (to_node e) (ensure_node (from_node e) g)) = Inr g3"
    "set_neighbor (to_node e) (from_node e) (cost e) g3 = Inr g'"
    "buildGraph_step blocked g e = Inr g'"
proof -
  let ?g2 = "ensure_node (to_node e) (ensure_node (from_node e) g)"
  have "map_of ?g2 (from_node e) \<noteq> None"
    by (simp add: ensure_node_lookup_if)
  then obtain m where m: "map_of ?g2 (from_node e) = Some m" by blast
  define g3 where "g3 = AList.update (from_node e) (AList.update (to_node e) (cost e) m) ?g2"
  have s1: "set_neighbor (from_node e) (to_node e) (cost e) ?g2 = Inr g3"
    unfolding g3_def by (rule set_neighbor_total[OF m])
  have "map_of g3 (to_node e) \<noteq> None"
    by (simp add: g3_def AList.update_conv' ensure_node_lookup_if)
  then obtain m' where m': "map_of g3 (to_node e) = Some m'" by blast
  define g' where "g' = AList.update (to_node e) (AList.update (from_node e) (cost e) m') g3"
  have s2: "set_neighbor (to_node e) (from_node e) (cost e) g3 = Inr g'"
    unfolding g'_def by (rule set_neighbor_total[OF m'])
  have "buildGraph_step blocked g e = Inr g'"
    using assms s1 s2 by (simp add: buildGraph_step_def blocked_edge_def)
  with s1 s2 show thesis by (rule that)
qed

lemma buildGraph_step_blocked:
  "blocked_edge blocked e \<Longrightarrow> buildGraph_step blocked g e = Inr g"
  by (simp add: buildGraph_step_def blocked_edge_def)

lemma buildGraph_step_total: "\<exists>g'. buildGraph_step blocked g e = Inr g'"
proof (cases "blocked_edge blocked e")
  case True
  then show ?thesis by (simp add: buildGraph_step_blocked)
next
  case False
  then show ?thesis by (rule buildGraph_step_unblocked) blast
qed

lemma buildGraph_step_cost:
  assumes nb: "\<not> blocked_edge blocked e" and step: "buildGraph_step blocked g e = Inr g'"
  shows "edge_cost g' a b =
           (if (a = from_node e \<and> b = to_node e) \<or> (a = to_node e \<and> b = from_node e)
            then Some (cost e) else edge_cost g a b)"
proof -
  from nb obtain g3 g'' where
    s1: "set_neighbor (from_node e) (to_node e) (cost e)
       (ensure_node (to_node e) (ensure_node (from_node e) g)) = Inr g3" and
    s2: "set_neighbor (to_node e) (from_node e) (cost e) g3 = Inr g''" and
    s3: "buildGraph_step blocked g e = Inr g''"
    by (rule buildGraph_step_unblocked)
  from s3 step have eq: "g'' = g'" by simp
  show ?thesis
    unfolding edge_cost_def set_neighbor_lookup[OF s2[unfolded eq]] set_neighbor_lookup[OF s1]
      ensure_node_lookup_if
    by (auto simp: AList.update_conv' split: option.splits)
qed

lemma buildGraph_step_keys:
  assumes nb: "\<not> blocked_edge blocked e" and step: "buildGraph_step blocked g e = Inr g'"
  shows "fst ` set g' = fst ` set g \<union> {from_node e, to_node e}"
proof -
  from nb obtain g3 g'' where
    s1: "set_neighbor (from_node e) (to_node e) (cost e)
       (ensure_node (to_node e) (ensure_node (from_node e) g)) = Inr g3" and
    s2: "set_neighbor (to_node e) (from_node e) (cost e) g3 = Inr g''" and
    s3: "buildGraph_step blocked g e = Inr g''"
    by (rule buildGraph_step_unblocked)
  from s3 step have eq: "g'' = g'" by simp
  show ?thesis
    using set_neighbor_keys[OF s2] set_neighbor_keys[OF s1]
    by (auto simp: eq ensure_node_keys)
qed

lemma graph_inv_iff: "distinct (map fst g) \<and> graph_inv blocked g \<longleftrightarrow> unblocked blocked g \<and> nonempty_except {} g"
  by (auto simp: graph_inv_def unblocked_def nonempty_except_def)

lemma buildGraph_step_inv:
  assumes inv: "unblocked blocked g" "nonempty_except {} g" and step: "buildGraph_step blocked g e = Inr g'"
  shows "unblocked blocked g' \<and> nonempty_except {} g'"
proof (cases "blocked_edge blocked e")
  case True
  with step inv show ?thesis by (simp add: buildGraph_step_blocked)
next
  case False
  let ?a = "from_node e" and ?b = "to_node e"
  from False obtain g3 g'' where
    s1: "set_neighbor ?a ?b (cost e) (ensure_node ?b (ensure_node ?a g)) = Inr g3" and
    s2: "set_neighbor ?b ?a (cost e) g3 = Inr g''" and
    s3: "buildGraph_step blocked g e = Inr g''"
    by (rule buildGraph_step_unblocked)
  from s3 step have eq: "g'' = g'" by simp
  from False have ab: "?a \<notin> set blocked" "?b \<notin> set blocked"
    by (simp_all add: blocked_edge_def)
  have u1: "unblocked blocked (ensure_node ?a g)"
    using inv(1) ab(1) by (rule ensure_node_unblocked)
  have u2: "unblocked blocked (ensure_node ?b (ensure_node ?a g))"
    using u1 ab(2) by (rule ensure_node_unblocked)
  have u3: "unblocked blocked g3"
    using u2 ab s1 by (rule set_neighbor_unblocked)
  have u4: "unblocked blocked g'"
    using u3 ab(2) ab(1) s2[unfolded eq] by (rule set_neighbor_unblocked)
  have d0: "distinct (map fst g)" using inv(1) by (simp add: unblocked_def)
  have n1: "nonempty_except {?a} (ensure_node ?a g)"
    using ensure_node_nonempty[OF d0 inv(2), of ?a] by simp
  have n2: "nonempty_except {?b, ?a} (ensure_node ?b (ensure_node ?a g))"
    using ensure_node_nonempty[OF _ n1, of ?b] u1 by (simp add: unblocked_def)
  have n3: "nonempty_except ({?b, ?a} - {?a}) g3"
    using set_neighbor_nonempty[OF _ n2 s1] u2 by (simp add: unblocked_def)
  have n4: "nonempty_except ({?b, ?a} - {?a} - {?b}) g'"
    using set_neighbor_nonempty[OF _ n3 s2[unfolded eq]] u3 by (simp add: unblocked_def)
  have "{?b, ?a} - {?a} - {?b} = {}" by auto
  with n4 u4 show ?thesis by simp
qed

lemma buildGraph_loop_total: "\<exists>g'. buildGraph_loop blocked g es = Inr g'"
proof (induction es arbitrary: g)
  case Nil
  show ?case by simp
next
  case (Cons e es)
  obtain g1 where "buildGraph_step blocked g e = Inr g1"
    using buildGraph_step_total by blast
  with Cons.IH[of g1] show ?case by simp
qed

lemma buildGraph_loop_inv:
  "unblocked blocked g \<Longrightarrow> nonempty_except {} g \<Longrightarrow> buildGraph_loop blocked g es = Inr g' \<Longrightarrow>
   unblocked blocked g' \<and> nonempty_except {} g'"
proof (induction es arbitrary: g)
  case Nil
  then show ?case by simp
next
  case (Cons e es)
  obtain g1 where g1: "buildGraph_step blocked g e = Inr g1"
    using buildGraph_step_total by blast
  from buildGraph_step_inv[OF Cons.prems(1,2) g1] Cons.prems(3) g1 Cons.IH[of g1]
  show ?case by simp
qed

lemma buildGraph_loop_append:
  "buildGraph_loop blocked g (xs @ ys) =
     (case buildGraph_loop blocked g xs of Inl err \<Rightarrow> Inl err | Inr g' \<Rightarrow> buildGraph_loop blocked g' ys)"
  by (induction xs arbitrary: g) (auto split: sum.splits)

lemma buildGraph_total: "\<exists>g. buildGraph es blocked = Inr g"
  by (simp add: buildGraph_def buildGraph_loop_total)

lemma buildGraph_inv:
  assumes "buildGraph es blocked = Inr g"
  shows "distinct (map fst g) \<and> graph_inv blocked g"
proof -
  have "unblocked blocked []" "nonempty_except {} []"
    by (simp_all add: unblocked_def nonempty_except_def)
  from buildGraph_loop_inv[OF this assms[unfolded buildGraph_def]]
  show ?thesis by (simp add: graph_inv_iff)
qed

lemma buildGraph_snoc:
  "buildGraph es blocked = Inr g \<Longrightarrow> buildGraph (es @ [e]) blocked = buildGraph_step blocked g e"
  by (simp add: buildGraph_def buildGraph_loop_append split: sum.splits)

text \<open>
  C8: buildGraph never fails; the empty edge list gives the empty graph; and processing one
  more edge \<open>e\<close> after the edges \<open>es\<close> leaves the graph as it is when an endpoint of
  \<open>e\<close> is blocked, and otherwise makes both endpoints keys and records the cost of
  \<open>e\<close> under the ordered pairs (from, to) and (to, from), replacing what was recorded
  there and changing the cost of no other ordered pair.
\<close>

theorem buildGraph_records_edges:
  "buildGraph [] blocked = Inr [] \<and>
   (\<exists>g g'. buildGraph es blocked = Inr g \<and> buildGraph (es @ [e]) blocked = Inr g' \<and>
      (if blocked_edge blocked e then g' = g
       else fst ` set g' = fst ` set g \<union> {from_node e, to_node e} \<and>
            (\<forall>a b. edge_cost g' a b =
               (if (a = from_node e \<and> b = to_node e) \<or> (a = to_node e \<and> b = from_node e)
                then Some (cost e) else edge_cost g a b))))"
proof -
  obtain g where g: "buildGraph es blocked = Inr g"
    using buildGraph_total by blast
  obtain g' where g': "buildGraph_step blocked g e = Inr g'"
    using buildGraph_step_total by blast
  have snoc: "buildGraph (es @ [e]) blocked = Inr g'"
    using buildGraph_snoc[OF g] g' by simp
  have "if blocked_edge blocked e then g' = g
       else fst ` set g' = fst ` set g \<union> {from_node e, to_node e} \<and>
            (\<forall>a b. edge_cost g' a b =
               (if (a = from_node e \<and> b = to_node e) \<or> (a = to_node e \<and> b = from_node e)
                then Some (cost e) else edge_cost g a b))"
  proof (cases "blocked_edge blocked e")
    case True
    with g' show ?thesis by (simp add: buildGraph_step_blocked)
  next
    case False
    with buildGraph_step_keys[OF False g'] buildGraph_step_cost[OF False g']
    show ?thesis by simp
  qed
  with g snoc show ?thesis by (auto simp: buildGraph_def)
qed

theorem buildGraph_records_edges_witness:
  "\<exists>g'. buildGraph (example_edges @ [\<lparr>from_node = ''D'', to_node = ''C'', cost = Num 7\<rparr>]) [''B'']
           = Inr g' \<and>
        edge_cost g' ''C'' ''D'' = Some (Num 7) \<and> edge_cost g' ''D'' ''C'' = Some (Num 7)"
proof -
  let ?e = "\<lparr>from_node = ''D'', to_node = ''C'', cost = Num 7\<rparr>"
  have nb: "\<not> blocked_edge [''B''] ?e" by (simp add: blocked_edge_def)
  from buildGraph_records_edges[of "[''B'']" example_edges ?e] nb
  obtain g g' where g': "buildGraph (example_edges @ [?e]) [''B''] = Inr g'"
    and c: "\<forall>a b. edge_cost g' a b =
               (if (a = from_node ?e \<and> b = to_node ?e) \<or> (a = to_node ?e \<and> b = from_node ?e)
                then Some (cost ?e) else edge_cost g a b)"
    by auto
  from c have "edge_cost g' ''C'' ''D'' = Some (Num 7)" "edge_cost g' ''D'' ''C'' = Some (Num 7)"
    by simp_all
  with g' show ?thesis by blast
qed

text \<open>
  C9: the graph buildGraph produces has no blocked identifier among its keys nor among
  the neighbor keys of any adjacency map, and every key has a non-empty adjacency map.
\<close>

theorem buildGraph_excludes_blocked:
  "\<exists>g. buildGraph es blocked = Inr g \<and> distinct (map fst g) \<and> graph_inv blocked g"
  using buildGraph_total[of es blocked] buildGraph_inv[of es blocked] by blast

theorem buildGraph_excludes_blocked_witness:
  "buildGraph example_edges [''B''] = Inr [(''C'', [(''D'', Num 3)]), (''D'', [(''C'', Num 3)])] \<and>
   graph_inv [''B''] [(''C'', [(''D'', Num 3)]), (''D'', [(''C'', Num 3)])]"
proof -
  from buildGraph_excludes_blocked[of example_edges "[''B'']"]
  obtain g where g: "buildGraph example_edges [''B''] = Inr g" and inv: "graph_inv [''B''] g"
    by blast
  have "buildGraph example_edges [''B''] = Inr [(''C'', [(''D'', Num 3)]), (''D'', [(''C'', Num 3)])]"
    by (simp add: buildGraph_def example_edges_def buildGraph_step_def ensure_node_def
          set_neighbor_def)
  with g inv show ?thesis by simp
qed

section \<open>Properties of the validation\<close>

lemma findOptimalPath_missing:
  "missingNodes r \<noteq> [] \<Longrightarrow> findOptimalPath ar r =
     Some (Inl (HttpException (''Missing required nodes: '' @ join '', '' (missingNodes r)) BAD_REQUEST))"
  by (simp add: findOptimalPath_def validateNodesExist_def missingNodes_def Let_def)

lemma findOptimalPath_invalid:
  "missingNodes r = [] \<Longrightarrow> invalidEdgeNodes r \<noteq> [] \<Longrightarrow> findOptimalPath ar r =
     Some (Inl (HttpException (''Invalid edge nodes: '' @ join '', '' (invalidEdgeNodes r)) BAD_REQUEST))"
  by (simp add: findOptimalPath_def validateNodesExist_def missingNodes_def invalidEdgeNodes_def Let_def)

lemma validate_ok:
  "missingNodes r = [] \<Longrightarrow> invalidEdgeNodes r = [] \<Longrightarrow>
   validateNodesExist (nodes r) (edges r) (requiredStops (constraints r) @ [end_node r]) = Inr ()"
  by (simp add: validateNodesExist_def missingNodes_def invalidEdgeNodes_def Let_def)

lemma validate_ok_iff:
  "validateNodesExist (nodes r) (edges r) (requiredStops (constraints r) @ [end_node r]) = Inr ()
   \<longleftrightarrow> missingNodes r = [] \<and> invalidEdgeNodes r = []"
  by (simp add: validateNodesExist_def missingNodes_def invalidEdgeNodes_def Let_def)

lemma findOptimalPath_valid:
  assumes "missingNodes r = []" "invalidEdgeNodes r = []"
  obtains g where "buildGraph (edges r) (blockedNodes (constraints r)) = Inr g"
    "findOptimalPath ar r =
       (case findPathWithRequiredStops ar g (start r) (end_node r) (requiredStops (constraints r)) of
          None \<Rightarrow> None
        | Some None \<Rightarrow> Some (Inl (NoPathFound (requiredStops (constraints r))))
        | Some (Some (pth, c)) \<Rightarrow> Some (Inr \<lparr>path = pth, totalCost = c\<rparr>))"
proof -
  obtain g where g: "buildGraph (edges r) (blockedNodes (constraints r)) = Inr g"
    using buildGraph_total by blast
  show thesis
    by (rule that[OF g]) (simp add: findOptimalPath_def Let_def validate_ok[OF assms] g NoPathFound_def
           split: option.splits)
qed

lemma findOptimalPath_valid_errors:
  assumes "missingNodes r = []" "invalidEdgeNodes r = []" "findOptimalPath ar r = Some (Inl x)"
  shows "x = NoPathFound (requiredStops (constraints r))"
proof -
  from assms(1,2) obtain g where
    "findOptimalPath ar r =
       (case findPathWithRequiredStops ar g (start r) (end_node r) (requiredStops (constraints r)) of
          None \<Rightarrow> None
        | Some None \<Rightarrow> Some (Inl (NoPathFound (requiredStops (constraints r))))
        | Some (Some (pth, c)) \<Rightarrow> Some (Inr \<lparr>path = pth, totalCost = c\<rparr>))"
    by (rule findOptimalPath_valid)
  with assms(3) show ?thesis by (auto split: option.splits prod.splits)
qed

lemma NoPathFound_kind: "\<not> isMissingNodes (NoPathFound stops)" "\<not> isInvalidEdgeNodes (NoPathFound stops)"
  by (simp_all add: NoPathFound_def isMissingNodes_def isInvalidEdgeNodes_def)

text \<open>
  C6: whenever an identifier of requiredStops followed by end is absent from nodes,
  findOptimalPath fails with the message "Missing required nodes: " followed by exactly
  the absent identifiers, in input order, joined by ", ", whatever the edges, the blocked
  nodes and the start are; and it fails with a message of that kind in no other case, so
  a start that is absent from nodes does not cause it.
\<close>

theorem missing_nodes_reported:
  "(missingNodes r \<noteq> [] \<longrightarrow>
      findOptimalPath ar r =
        Some (Inl (HttpException (''Missing required nodes: '' @ join '', '' (missingNodes r))
                     BAD_REQUEST))) \<and>
   ((\<exists>x. findOptimalPath ar r = Some (Inl x) \<and> isMissingNodes x) \<longleftrightarrow> missingNodes r \<noteq> [])"
proof (cases "missingNodes r = []")
  case True
  show ?thesis
  proof (cases "invalidEdgeNodes r = []")
    case True
    with \<open>missingNodes r = []\<close> findOptimalPath_valid_errors[of r ar] show ?thesis
      by (auto simp: NoPathFound_kind)
  next
    case False
    with True findOptimalPath_invalid[of r ar] show ?thesis by (auto simp: isMissingNodes_def)
  qed
next
  case False
  with findOptimalPath_missing[of r ar] show ?thesis by (auto simp: isMissingNodes_def)
qed

theorem missing_nodes_reported_witness:
  "findOptimalPath int_arith request_missing =
     Some (Inl (HttpException ''Missing required nodes: X, Z'' BAD_REQUEST)) \<and>
   start request_start_undeclared \<notin> set (nodes request_start_undeclared) \<and>
   \<not> (\<exists>x. findOptimalPath int_arith request_start_undeclared = Some (Inl x) \<and> isMissingNodes x)"
proof -
  have m: "missingNodes request_missing = [''X'', ''Z'']"
    by (simp add: missingNodes_def request_missing_def)
  from missing_nodes_reported[of request_missing int_arith] m
  have a: "findOptimalPath int_arith request_missing =
     Some (Inl (HttpException (''Missing required nodes: '' @ join '', '' [''X'', ''Z'']) BAD_REQUEST))"
    by simp
  have "missingNodes request_start_undeclared = []"
    by (simp add: missingNodes_def request_start_undeclared_def)
  with missing_nodes_reported[of request_start_undeclared int_arith]
  have b: "\<not> (\<exists>x. findOptimalPath int_arith request_start_undeclared = Some (Inl x) \<and> isMissingNodes x)"
    by simp
  from a b show ?thesis by (simp add: request_start_undeclared_def)
qed

text \<open>
  C7: when every identifier of requiredStops followed by end is in nodes, findOptimalPath
  fails with a message of the kind "Invalid edge nodes: " exactly when some edge has an
  endpoint that is absent from nodes, and the message then lists the absent endpoints in
  the order from, to of each edge in turn, repeated as often as they occur.
\<close>

theorem invalid_edge_nodes_reported:
  assumes "missingNodes r = []"
  shows "((\<exists>x. findOptimalPath ar r = Some (Inl x) \<and> isInvalidEdgeNodes x) \<longleftrightarrow>
            (\<exists>e \<in> set (edges r). from_node e \<notin> set (nodes r) \<or> to_node e \<notin> set (nodes r))) \<and>
         ((\<exists>e \<in> set (edges r). from_node e \<notin> set (nodes r) \<or> to_node e \<notin> set (nodes r)) \<longrightarrow>
            findOptimalPath ar r =
              Some (Inl (HttpException (''Invalid edge nodes: '' @ join '', '' (invalidEdgeNodes r))
                           BAD_REQUEST)))"
proof -
  have iff: "(\<exists>e \<in> set (edges r). from_node e \<notin> set (nodes r) \<or> to_node e \<notin> set (nodes r))
               \<longleftrightarrow> invalidEdgeNodes r \<noteq> []"
    by (auto simp: invalidEdgeNodes_def filter_empty_conv)
  show ?thesis
  proof (cases "invalidEdgeNodes r = []")
    case True
    with assms findOptimalPath_valid_errors[of r ar] iff show ?thesis
      by (auto simp: NoPathFound_kind)
  next
    case False
    with assms findOptimalPath_invalid[of r ar] iff show ?thesis
      by (auto simp: isInvalidEdgeNodes_def)
  qed
qed

theorem invalid_edge_nodes_reported_witness:
  "findOptimalPath int_arith request_invalid_edges =
     Some (Inl (HttpException ''Invalid edge nodes: C, D, C'' BAD_REQUEST))"
proof -
  have m: "missingNodes request_invalid_edges = []"
    by (simp add: missingNodes_def request_invalid_edges_def)
  have i: "invalidEdgeNodes request_invalid_edges = [''C'', ''D'', ''C'']"
    by (simp add: invalidEdgeNodes_def request_invalid_edges_def)
  have "\<exists>e \<in> set (edges request_invalid_edges).
          from_node e \<notin> set (nodes request_invalid_edges) \<or>
          to_node e \<notin> set (nodes request_invalid_edges)"
    by (simp add: request_invalid_edges_def)
  with invalid_edge_nodes_reported[OF m, of int_arith] i show ?thesis by simp
qed

section \<open>Properties of the single-pair search\<close>

lemma int_arith_simps [simp]:
  "js_plus int_arith = add" "js_less int_arith = lt" "js_zero int_arith = Num 0"
  "js_infinity int_arith = Infinity" "js_undefined int_arith = NaN"
  by (simp_all add: int_arith_def)

lemma basic_order_int: "basic_order int_arith"
  by (simp add: basic_order_def)

lemma minStep_fold_mem:
  "fst (foldl (minStep ar d) acc xs) = Some c \<Longrightarrow> c \<in> set xs \<or> fst acc = Some c"
  by (induction xs arbitrary: acc) (fastforce simp: minStep_def Let_def split: if_splits prod.splits)+

lemma getMinDistanceNode_mem: "getMinDistanceNode ar u d = Some c \<Longrightarrow> c \<in> set u"
  using minStep_fold_mem[of ar d "(None, js_infinity ar)" u c] by (simp add: getMinDistanceNode_def)

lemma fold_init_lookup:
  "(foldl (\<lambda>d node. d(node \<mapsto> x)) m u) n = (if n \<in> set u then Some x else m n)"
  by (induction u arbitrary: m) auto

lemma init_distances_src: "get_number ar (init_distances ar u s) s = js_zero ar"
  by (simp add: init_distances_def get_number_def)

lemma init_distances_other:
  "n \<noteq> s \<Longrightarrow> n \<in> set u \<Longrightarrow> get_number ar (init_distances ar u s) n = js_infinity ar"
  by (simp add: init_distances_def get_number_def fold_init_lookup)

lemma minStep_fold_found:
  assumes "basic_order ar" "get_number ar d s = js_zero ar"
    "\<forall>n \<in> set u. n \<noteq> s \<longrightarrow> get_number ar d n = js_infinity ar"
  shows "foldl (minStep ar d) (Some s, js_zero ar) u = (Some s, js_zero ar)"
  using assms by (induction u) (auto simp: minStep_def Let_def basic_order_def)

lemma minStep_fold_init:
  assumes "basic_order ar" "get_number ar d s = js_zero ar"
    "\<forall>n \<in> set u. n \<noteq> s \<longrightarrow> get_number ar d n = js_infinity ar"
  shows "foldl (minStep ar d) (None, js_infinity ar) u =
           (if s \<in> set u then (Some s, js_zero ar) else (None, js_infinity ar))"
  using assms
proof (induction u)
  case Nil
  then show ?case by simp
next
  case (Cons a u)
  show ?case
  proof (cases "a = s")
    case True
    with Cons.prems have "minStep ar d (None, js_infinity ar) a = (Some s, js_zero ar)"
      by (simp add: minStep_def Let_def basic_order_def)
    with True Cons.prems minStep_fold_found[of ar d s u] show ?thesis
      by simp
  next
    case False
    with Cons show ?thesis by (simp add: minStep_def Let_def basic_order_def)
  qed
qed

lemma minStep_fold_none:
  "\<forall>n \<in> set u. \<not> js_less ar (get_number ar d n) (js_infinity ar) \<Longrightarrow>
   foldl (minStep ar d) (None, js_infinity ar) u = (None, js_infinity ar)"
  by (induction u) (simp_all add: minStep_def Let_def)

lemma getMinDistanceNode_Nil: "getMinDistanceNode ar [] d = None"
  by (simp add: getMinDistanceNode_def)

lemma getMinDistanceNode_init:
  "basic_order ar \<Longrightarrow>
   getMinDistanceNode ar u (init_distances ar u s) = (if s \<in> set u then Some s else None)"
  using minStep_fold_init[of ar "init_distances ar u s" s u]
  by (simp add: getMinDistanceNode_def init_distances_src init_distances_other)

lemma dijkstra_loop_self:
  "basic_order ar \<Longrightarrow>
   dijkstra_loop ar g s u (init_distances ar u s, p) = (init_distances ar u s, p)"
  by (subst dijkstra_loop.simps) (simp add: getMinDistanceNode_init)

lemma reconstructPath_self: "s \<noteq> [] \<Longrightarrow> reconstructPath s s p = Some (Some [s])"
  by (simp add: reconstructPath_def reconstructPath_loop.simps truthy_def)

lemma reconstructPath_empty: "reconstructPath s [] p = Some None"
  by (simp add: reconstructPath_def reconstructPath_loop.simps truthy_def)

lemma dijkstra_self:
  "basic_order ar \<Longrightarrow> s \<noteq> [] \<Longrightarrow> dijkstra ar g s s = Some (Some ([s], js_zero ar))"
  by (simp add: dijkstra_def Let_def dijkstra_loop_self reconstructPath_self init_distances_src)

lemma dijkstra_empty_end: "dijkstra ar g s [] = Some None"
  by (simp add: dijkstra_def Let_def reconstructPath_empty)

lemma relax_prev:
  "snd (relax ar c U dp nc) v = snd dp v \<or> (v \<in> set U \<and> snd (relax ar c U dp nc) v = Some c)"
  by (cases dp; cases nc) (simp add: relax_def Let_def)

lemma relax_fold_prev:
  "snd (foldl (relax ar c U) dp ns) v = snd dp v \<or> (v \<in> set U \<and> snd (foldl (relax ar c U) dp ns) v = Some c)"
proof (induction ns arbitrary: dp)
  case Nil
  show ?case by simp
next
  case (Cons n ns)
  from Cons.IH[of "relax ar c U dp n"] relax_prev[of ar c U dp n v] show ?case by auto
qed

lemma processNeighbors_prev:
  "snd (processNeighbors ar c g U dp) v = snd dp v \<or> (v \<in> set U \<and> snd (processNeighbors ar c g U dp) v = Some c)"
  unfolding processNeighbors_def Let_def by (rule relax_fold_prev)

lemma prev_inv_step:
  assumes inv: "prev_inv U p" and c: "c \<in> set U"
      and p': "\<And>v. p' v = p v \<or> (v \<in> set (removeAll c U) \<and> p' v = Some c)"
  shows "prev_inv (removeAll c U) p'"
proof -
  from inv obtain r :: "string \<Rightarrow> nat" where
    r: "\<And>v u. p v = Some u \<Longrightarrow> u \<notin> set U \<and> (v \<notin> set U \<longrightarrow> r u < r v)"
    unfolding prev_inv_def by blast
  define r' where "r' = r(c := Suc (case p c of None \<Rightarrow> 0 | Some u \<Rightarrow> r u))"
  have "u \<notin> set (removeAll c U) \<and> (v \<notin> set (removeAll c U) \<longrightarrow> r' u < r' v)"
    if pv: "p' v = Some u" for v u
  proof (cases "p' v = p v")
    case True
    with pv have old: "p v = Some u" by simp
    from r[OF old] have u: "u \<notin> set U" and lt: "v \<notin> set U \<longrightarrow> r u < r v" by simp_all
    from u c have uc: "u \<noteq> c" by auto
    have "r' u < r' v" if "v \<notin> set (removeAll c U)"
    proof (cases "v = c")
      case True
      with old uc show ?thesis by (simp add: r'_def)
    next
      case False
      with that have "v \<notin> set U" by simp
      with lt uc False show ?thesis by (simp add: r'_def)
    qed
    with u show ?thesis by simp
  next
    case False
    with p'[of v] pv have "v \<in> set (removeAll c U)" "u = c" by auto
    then show ?thesis by simp
  qed
  then show ?thesis unfolding prev_inv_def by blast
qed

lemma prev_inv_empty: "prev_inv U Map.empty"
  by (simp add: prev_inv_def)

lemma dijkstra_loop_prev_inv:
  "prev_inv U (snd dp) \<Longrightarrow> \<exists>U'. prev_inv U' (snd (dijkstra_loop ar g dst U dp))"
proof (induction ar g dst U dp rule: dijkstra_loop.induct)
  case (1 ar g dst U dp)
  show ?case
  proof (cases "getMinDistanceNode ar U (fst dp)")
    case None
    with "1.prems" show ?thesis by (subst dijkstra_loop.simps) auto
  next
    case (Some c)
    show ?thesis
    proof (cases "c = [] \<or> c = dst")
      case True
      with Some "1.prems" show ?thesis by (subst dijkstra_loop.simps) auto
    next
      case False
      from Some have cU: "c \<in> set U" by (rule getMinDistanceNode_mem)
      then have len: "0 < length U" by (cases U) auto
      have "prev_inv (removeAll c U) (snd (processNeighbors ar c g (removeAll c U) dp))"
        using "1.prems" cU processNeighbors_prev by (rule prev_inv_step)
      from "1.IH"[OF len Some False this] obtain U' where
        "prev_inv U' (snd (dijkstra_loop ar g dst (removeAll c U)
                         (processNeighbors ar c g (removeAll c U) dp)))" by blast
      moreover have "dijkstra_loop ar g dst U dp =
          dijkstra_loop ar g dst (removeAll c U) (processNeighbors ar c g (removeAll c U) dp)"
        using len Some False by (subst dijkstra_loop.simps) simp
      ultimately show ?thesis by auto
    qed
  qed
qed

lemma reconstructPath_loop_unfold:
  "reconstructPath_loop src p acc (Some c) =
     (if c \<noteq> [] \<and> c \<noteq> src then reconstructPath_loop src p (c # acc) (next_node p c)
      else Some (acc, Some c))"
  by (subst reconstructPath_loop.simps) (simp add: next_node_def)

lemma reconstructPath_loop_None: "reconstructPath_loop src p acc None = Some (acc, None)"
  by (subst reconstructPath_loop.simps) simp

lemma next_node_Some: "next_node p c = Some q \<Longrightarrow> p c = Some q"
  by (auto simp: next_node_def split: option.splits if_splits)

lemma walk_settled:
  assumes r: "\<And>v u. p v = Some u \<Longrightarrow> u \<notin> set U \<and> (v \<notin> set U \<longrightarrow> (r::string \<Rightarrow> nat) u < r v)"
  shows "v \<notin> set U \<Longrightarrow> \<exists>res. reconstructPath_loop src p acc (Some v) = Some res"
proof (induction "r v" arbitrary: v acc rule: less_induct)
  case less
  show ?case
  proof (cases "v \<noteq> [] \<and> v \<noteq> src")
    case False
    then show ?thesis by (auto simp: reconstructPath_loop_unfold)
  next
    case True
    show ?thesis
    proof (cases "next_node p v")
      case None
      with True show ?thesis by (simp add: reconstructPath_loop_unfold reconstructPath_loop_None)
    next
      case (Some q)
      from r[OF next_node_Some[OF Some]] less.prems have "q \<notin> set U" "r q < r v" by simp_all
      from less.hyps[OF this(2) this(1)] True Some show ?thesis
        by (simp add: reconstructPath_loop_unfold)
    qed
  qed
qed

lemma walk_terminates:
  assumes "prev_inv U p"
  shows "\<exists>res. reconstructPath_loop src p acc cur = Some res"
proof -
  from assms obtain r :: "string \<Rightarrow> nat" where
    r: "\<And>v u. p v = Some u \<Longrightarrow> u \<notin> set U \<and> (v \<notin> set U \<longrightarrow> r u < r v)"
    unfolding prev_inv_def by blast
  show ?thesis
  proof (cases cur)
    case None
    then show ?thesis by (simp add: reconstructPath_loop_None)
  next
    case (Some v)
    show ?thesis
    proof (cases "v \<noteq> [] \<and> v \<noteq> src")
      case False
      with Some show ?thesis by (auto simp: reconstructPath_loop_unfold)
    next
      case True
      show ?thesis
      proof (cases "next_node p v")
        case None
        with True Some show ?thesis
          by (simp add: reconstructPath_loop_unfold reconstructPath_loop_None)
      next
        case (Some q)
        from r[OF next_node_Some[OF Some]] have "q \<notin> set U" by simp
        from walk_settled[of p U r q src "v # acc", OF r this] True Some \<open>cur = Some v\<close>
        show ?thesis by (simp add: reconstructPath_loop_unfold)
      qed
    qed
  qed
qed

lemma reconstructPath_terminates:
  "prev_inv U p \<Longrightarrow> \<exists>res. reconstructPath src dst p = Some res"
  using walk_terminates[of U p src "[]" "Some dst"]
  by (auto simp: reconstructPath_def split: prod.splits)

lemma dijkstra_terminates: "\<exists>res. dijkstra ar g src dst = Some res"
proof -
  let ?u = "map fst g"
  let ?dp = "dijkstra_loop ar g dst ?u (init_distances ar ?u src, Map.empty)"
  have "prev_inv ?u (snd (init_distances ar ?u src, Map.empty :: previous))"
    by (simp add: prev_inv_empty)
  from dijkstra_loop_prev_inv[OF this] obtain U' where "prev_inv U' (snd ?dp)" by blast
  from reconstructPath_terminates[OF this, of src dst] obtain res where
    "reconstructPath src dst (snd ?dp) = Some res" by blast
  then show ?thesis by (cases res) (simp_all add: dijkstra_def Let_def)
qed

section \<open>Correctness of the search in exact arithmetic when no key is the empty identifier\<close>

text \<open>
  This section is about the arithmetic \<open>int_arith\<close> only, on graphs with integer costs.
  It says nothing about sums that the doubles round or that overflow.
\<close>

lemma lt_trans: "lt a b \<Longrightarrow> lt b c \<Longrightarrow> lt a c"
  by (cases a; cases b; cases c) simp_all

lemma lt_Infinity_iff: "lt x Infinity \<longleftrightarrow> (\<exists>a. x = Num a)"
  by (cases x) simp_all

lemma lt_Num_iff: "lt x (Num b) \<longleftrightarrow> (\<exists>a. x = Num a \<and> a < b)"
  by (cases x) simp_all

lemma number_graph_keys [simp]: "map fst (number_graph g) = map fst g"
  by (simp add: number_graph_def comp_def)

lemma number_graph_lookup:
  "map_of (number_graph g) k = map_option (map num_edge) (map_of g k)"
  by (induction g) (auto simp: number_graph_def)

lemma number_graph_nbrs:
  "(case map_of (number_graph g) k of None \<Rightarrow> [] | Some m \<Rightarrow> m) =
   map num_edge (case map_of g k of None \<Rightarrow> [] | Some m \<Rightarrow> m)"
  by (simp add: number_graph_lookup split: option.splits)

lemma minStep_fold_result:
  "\<exists>fn fd. foldl (minStep int_arith d) (mn, md) xs = (fn, fd) \<and>
      ((fn = mn \<and> fd = md) \<or> (lt fd md \<and> (\<exists>c \<in> set xs. fn = Some c \<and> fd = get_number int_arith d c))) \<and>
      (\<forall>v \<in> set xs. \<not> lt (get_number int_arith d v) fd)"
proof (induction xs arbitrary: mn md)
  case Nil
  show ?case by simp
next
  case (Cons x xs)
  show ?case
  proof (cases "lt (get_number int_arith d x) md")
    case True
    then have step: "minStep int_arith d (mn, md) x = (Some x, get_number int_arith d x)"
      by (simp add: minStep_def Let_def)
    from Cons.IH[of "Some x" "get_number int_arith d x"] obtain fn fd where
      f: "foldl (minStep int_arith d) (Some x, get_number int_arith d x) xs = (fn, fd)" and
      c: "(fn = Some x \<and> fd = get_number int_arith d x) \<or>
          (lt fd (get_number int_arith d x) \<and> (\<exists>c \<in> set xs. fn = Some c \<and> fd = get_number int_arith d c))" and
      m: "\<forall>v \<in> set xs. \<not> lt (get_number int_arith d v) fd" by blast
    from c True have "lt fd md \<and> (\<exists>c \<in> set (x # xs). fn = Some c \<and> fd = get_number int_arith d c)"
      by (auto intro: lt_trans)
    moreover from c have "\<not> lt (get_number int_arith d x) fd"
      by (cases "get_number int_arith d x"; cases fd) auto
    ultimately show ?thesis using f m step by auto
  next
    case False
    then have step: "minStep int_arith d (mn, md) x = (mn, md)"
      by (simp add: minStep_def Let_def)
    from Cons.IH[of mn md] obtain fn fd where
      f: "foldl (minStep int_arith d) (mn, md) xs = (fn, fd)" and
      c: "(fn = mn \<and> fd = md) \<or> (lt fd md \<and> (\<exists>c \<in> set xs. fn = Some c \<and> fd = get_number int_arith d c))" and
      m: "\<forall>v \<in> set xs. \<not> lt (get_number int_arith d v) fd" by blast
    from c False have "\<not> lt (get_number int_arith d x) fd"
      by (auto dest: lt_trans)
    with f c m step show ?thesis by auto
  qed
qed

lemma getMinDistanceNode_None:
  assumes "getMinDistanceNode int_arith u d = None"
  shows "\<forall>v \<in> set u. \<forall>a. get_number int_arith d v \<noteq> Num a"
proof -
  from minStep_fold_result[of d None Infinity u] assms
  have "\<forall>v \<in> set u. \<not> lt (get_number int_arith d v) Infinity"
    by (auto simp: getMinDistanceNode_def)
  then show ?thesis by (auto simp: lt_Infinity_iff)
qed

lemma getMinDistanceNode_Some:
  assumes "getMinDistanceNode int_arith u d = Some c"
  shows "\<exists>dc. c \<in> set u \<and> get_number int_arith d c = Num dc \<and>
           (\<forall>v dv. v \<in> set u \<longrightarrow> get_number int_arith d v = Num dv \<longrightarrow> dc \<le> dv)"
proof -
  from minStep_fold_result[of d None Infinity u] assms
  have c: "c \<in> set u" and f: "lt (get_number int_arith d c) Infinity"
    and m: "\<forall>v \<in> set u. \<not> lt (get_number int_arith d v) (get_number int_arith d c)"
    by (auto simp: getMinDistanceNode_def)
  from f obtain dc where dc: "get_number int_arith d c = Num dc" by (auto simp: lt_Infinity_iff)
  have "dc \<le> dv" if "v \<in> set u" "get_number int_arith d v = Num dv" for v dv
    using m dc that by fastforce
  with c dc show ?thesis by blast
qed

lemma get_number_upd: "get_number int_arith (d(k \<mapsto> x)) v = (if v = k then x else get_number int_arith d v)"
  by (simp add: get_number_def)

lemma relax_step:
  assumes "get_number int_arith d c = Num dc" "c \<notin> set U"
  shows "relaxed U c dc [(n, w)] (d, p) (relax int_arith c U (d, p) (n, Num w))"
  using assms by (auto simp: relaxed_def relax_def Let_def get_number_upd)

lemma relaxed_get_current:
  assumes "relaxed U c dc ns dp dp'" "c \<notin> set U"
  shows "get_number int_arith (fst dp') c = get_number int_arith (fst dp) c"
  using assms unfolding relaxed_def by (metis get_number_def)

lemma relaxed_mono:
  assumes "relaxed U c dc ns dp dp'"
  shows "get_number int_arith (fst dp') v = get_number int_arith (fst dp) v \<or>
         lt (get_number int_arith (fst dp') v) (get_number int_arith (fst dp) v)"
proof -
  from assms have "(fst dp' v = fst dp v) \<or>
      (\<exists>w. fst dp' v = Some (Num (dc + w)) \<and> lt (Num (dc + w)) (get_number int_arith (fst dp) v))"
    unfolding relaxed_def by blast
  then show ?thesis by (auto simp: get_number_def)
qed

lemma relaxed_trans:
  assumes a: "relaxed U c dc [nw] dp dp1" and b: "relaxed U c dc ns dp1 dp2"
  shows "relaxed U c dc (nw # ns) dp dp2"
  unfolding relaxed_def
proof (intro conjI allI impI)
  fix v
  from a have a1: "(fst dp1 v = fst dp v \<and> snd dp1 v = snd dp v) \<or>
           (v \<in> set U \<and> snd dp1 v = Some c \<and>
            (\<exists>w. (v, w) = nw \<and> fst dp1 v = Some (Num (dc + w)) \<and>
                 lt (Num (dc + w)) (get_number int_arith (fst dp) v)))"
    unfolding relaxed_def by auto
  from b have b1: "(fst dp2 v = fst dp1 v \<and> snd dp2 v = snd dp1 v) \<or>
           (v \<in> set U \<and> snd dp2 v = Some c \<and>
            (\<exists>w. (v, w) \<in> set ns \<and> fst dp2 v = Some (Num (dc + w)) \<and>
                 lt (Num (dc + w)) (get_number int_arith (fst dp1) v)))"
    unfolding relaxed_def by blast
  from relaxed_mono[OF a, of v]
  have m: "\<And>x. lt x (get_number int_arith (fst dp1) v) \<Longrightarrow> lt x (get_number int_arith (fst dp) v)"
    by (auto intro: lt_trans)
  from b1 show "(fst dp2 v = fst dp v \<and> snd dp2 v = snd dp v) \<or>
           (v \<in> set U \<and> snd dp2 v = Some c \<and>
            (\<exists>w. (v, w) \<in> set (nw # ns) \<and> fst dp2 v = Some (Num (dc + w)) \<and>
                 lt (Num (dc + w)) (get_number int_arith (fst dp) v)))"
  proof
    assume same: "fst dp2 v = fst dp1 v \<and> snd dp2 v = snd dp1 v"
    with a1 show ?thesis by auto
  next
    assume "v \<in> set U \<and> snd dp2 v = Some c \<and>
            (\<exists>w. (v, w) \<in> set ns \<and> fst dp2 v = Some (Num (dc + w)) \<and>
                 lt (Num (dc + w)) (get_number int_arith (fst dp1) v))"
    with m show ?thesis by auto
  qed
next
  fix v w assume vw: "(v, w) \<in> set (nw # ns)" and vU: "v \<in> set U"
  show "\<not> lt (Num (dc + w)) (get_number int_arith (fst dp2) v)"
  proof (cases "(v, w) \<in> set ns")
    case True
    with b vU show ?thesis unfolding relaxed_def by blast
  next
    case False
    with vw have "nw = (v, w)" by simp
    with a vU have n1: "\<not> lt (Num (dc + w)) (get_number int_arith (fst dp1) v)"
      unfolding relaxed_def by simp
    from relaxed_mono[OF b, of v] n1 show ?thesis
      by (auto dest: lt_trans)
  qed
qed

lemma relaxed_Nil: "relaxed U c dc [] dp dp"
  by (simp add: relaxed_def)

lemma relax_fold:
  "get_number int_arith (fst dp) c = Num dc \<Longrightarrow> c \<notin> set U \<Longrightarrow>
   relaxed U c dc ns dp (foldl (relax int_arith c U) dp (map num_edge ns))"
proof (induction ns arbitrary: dp)
  case Nil
  show ?case by (simp add: relaxed_Nil)
next
  case (Cons nw ns)
  obtain n w where nw: "nw = (n, w)" by (cases nw)
  obtain d p where dp: "dp = (d, p)" by (cases dp)
  from Cons.prems have s: "relaxed U c dc [nw] dp (relax int_arith c U dp (num_edge nw))"
    unfolding nw dp num_edge_def fst_conv snd_conv by (intro relax_step) simp_all
  from relaxed_get_current[OF s Cons.prems(2)] Cons.prems(1)
  have "get_number int_arith (fst (relax int_arith c U dp (num_edge nw))) c = Num dc" by simp
  from Cons.IH[OF this Cons.prems(2)] s show ?case
    by (simp add: relaxed_trans)
qed

lemma processNeighbors_relaxed:
  assumes "get_number int_arith (fst dp) c = Num dc" "c \<notin> set U"
  shows "relaxed U c dc (case map_of g c of None \<Rightarrow> [] | Some m \<Rightarrow> m) dp (processNeighbors int_arith c (number_graph g) U dp)"
  unfolding processNeighbors_def Let_def number_graph_nbrs using assms by (rule relax_fold)

lemma edge_cost_neighbors:
  assumes "wf_graph g"
  shows "(v, w) \<in> set (case map_of g c of None \<Rightarrow> [] | Some m \<Rightarrow> m) \<longleftrightarrow> edge_cost g c v = Some w"
proof (cases "map_of g c")
  case None
  then show ?thesis by (simp add: edge_cost_def)
next
  case (Some m)
  then have "(c, m) \<in> set g" by (rule map_of_SomeD)
  with assms have "distinct (map fst m)" by (auto simp: wf_graph_def)
  then show ?thesis using Some by (simp add: edge_cost_def)
qed

lemma edge_cost_nonneg:
  assumes "nonneg_costs g" "edge_cost g a b = Some w"
  shows "0 \<le> w"
proof -
  from assms(2) obtain m where m: "map_of g a = Some m" and w: "map_of m b = Some w"
    by (auto simp: edge_cost_def split: option.splits)
  from map_of_SomeD[OF m] map_of_SomeD[OF w] assms(1) show ?thesis
    by (fastforce simp: nonneg_costs_def)
qed

lemma edge_cost_key: "edge_cost g a b = Some w \<Longrightarrow> a \<in> fst ` set g"
  by (auto simp: edge_cost_def split: option.splits dest!: map_of_SomeD intro: rev_image_eqI)

lemma search_inv_init:
  "search_inv g src (map fst g) (init_distances int_arith (map fst g) src, Map.empty)"
proof -
  have a: "get_number int_arith (init_distances int_arith (map fst g) src) v =
             (if v = src then Num 0 else if v \<in> fst ` set g then Infinity else NaN)" for v
    by (simp add: init_distances_def get_number_def fold_init_lookup)
  show ?thesis unfolding search_inv_def by (simp add: a)
qed

lemma search_invD:
  assumes "search_inv g src U dp"
  shows "set U \<subseteq> fst ` set g"
    and "\<And>v. v \<in> fst ` set g \<Longrightarrow> get_number int_arith (fst dp) v \<noteq> NaN"
    and "get_number int_arith (fst dp) src = Num 0" 
    and "snd dp src = None"
    and "\<And>v x. get_number int_arith (fst dp) v = Num x \<Longrightarrow> 0 \<le> x"
    and "\<And>v u. snd dp v = Some u \<Longrightarrow> u \<in> fst ` set g \<and> u \<notin> set U \<and> u \<noteq> [] \<and>
         (\<exists>du c. get_number int_arith (fst dp) u = Num du \<and> edge_cost g u v = Some c \<and>
                 get_number int_arith (fst dp) v = Num (du + c))"
    and "\<And>v x. get_number int_arith (fst dp) v = Num x \<Longrightarrow> v = src \<or> snd dp v \<noteq> None"
    and "\<And>u. u \<in> fst ` set g - set U \<Longrightarrow> \<exists>du. get_number int_arith (fst dp) u = Num du"
    and "\<And>u v du dv. u \<in> fst ` set g - set U \<Longrightarrow> v \<in> set U \<Longrightarrow>
           get_number int_arith (fst dp) u = Num du \<Longrightarrow> get_number int_arith (fst dp) v = Num dv \<Longrightarrow> du \<le> dv"
    and "\<And>u v c du. u \<in> fst ` set g - set U \<Longrightarrow> v \<in> fst ` set g \<Longrightarrow>
           edge_cost g u v = Some c \<Longrightarrow> get_number int_arith (fst dp) u = Num du \<Longrightarrow>
           \<exists>dv. get_number int_arith (fst dp) v = Num dv \<and> dv \<le> du + c"
proof -
  note i = assms[unfolded search_inv_def]
  from i show "set U \<subseteq> fst ` set g" by (elim conjE)
  from i have "\<forall>v \<in> fst ` set g. get_number int_arith (fst dp) v \<noteq> NaN" by (elim conjE)
  then show "\<And>v. v \<in> fst ` set g \<Longrightarrow> get_number int_arith (fst dp) v \<noteq> NaN" by blast
  from i show "get_number int_arith (fst dp) src = Num 0" by (elim conjE)
  from i show "snd dp src = None" by (elim conjE)
  from i have "\<forall>v x. get_number int_arith (fst dp) v = Num x \<longrightarrow> 0 \<le> x" by (elim conjE)
  then show "\<And>v x. get_number int_arith (fst dp) v = Num x \<Longrightarrow> 0 \<le> x" by blast
  from i have "\<forall>v u. snd dp v = Some u \<longrightarrow>
         u \<in> fst ` set g \<and> u \<notin> set U \<and> u \<noteq> [] \<and>
         (\<exists>du c. get_number int_arith (fst dp) u = Num du \<and> edge_cost g u v = Some c \<and>
                 get_number int_arith (fst dp) v = Num (du + c))" by (elim conjE)
  then show "\<And>v u. snd dp v = Some u \<Longrightarrow> u \<in> fst ` set g \<and> u \<notin> set U \<and> u \<noteq> [] \<and>
         (\<exists>du c. get_number int_arith (fst dp) u = Num du \<and> edge_cost g u v = Some c \<and>
                 get_number int_arith (fst dp) v = Num (du + c))" by blast
  from i have "\<forall>v x. get_number int_arith (fst dp) v = Num x \<longrightarrow> v = src \<or> snd dp v \<noteq> None" by (elim conjE)
  then show "\<And>v x. get_number int_arith (fst dp) v = Num x \<Longrightarrow> v = src \<or> snd dp v \<noteq> None"
    by blast
  from i have "\<forall>u \<in> fst ` set g - set U. \<exists>du. get_number int_arith (fst dp) u = Num du" by (elim conjE)
  then show "\<And>u. u \<in> fst ` set g - set U \<Longrightarrow> \<exists>du. get_number int_arith (fst dp) u = Num du" by blast
  from i have h: "\<forall>u \<in> fst ` set g - set U. \<forall>v \<in> set U. \<forall>du dv.
         get_number int_arith (fst dp) u = Num du \<longrightarrow> get_number int_arith (fst dp) v = Num dv \<longrightarrow> du \<le> dv"
    by (elim conjE)
  show "\<And>u v du dv. u \<in> fst ` set g - set U \<Longrightarrow> v \<in> set U \<Longrightarrow>
           get_number int_arith (fst dp) u = Num du \<Longrightarrow> get_number int_arith (fst dp) v = Num dv \<Longrightarrow> du \<le> dv"
    using h by blast
  from i have k: "\<forall>u \<in> fst ` set g - set U. \<forall>v \<in> fst ` set g. \<forall>c du.
         edge_cost g u v = Some c \<longrightarrow> get_number int_arith (fst dp) u = Num du \<longrightarrow>
         (\<exists>dv. get_number int_arith (fst dp) v = Num dv \<and> dv \<le> du + c)" by (elim conjE)
  show "\<And>u v c du. u \<in> fst ` set g - set U \<Longrightarrow> v \<in> fst ` set g \<Longrightarrow>
           edge_cost g u v = Some c \<Longrightarrow> get_number int_arith (fst dp) u = Num du \<Longrightarrow>
           \<exists>dv. get_number int_arith (fst dp) v = Num dv \<and> dv \<le> du + c"
    using k by blast
qed

lemma search_inv_step:
  assumes wf: "wf_graph g" and nn: "nonneg_costs g" and ne: "[] \<notin> fst ` set g"
      and inv: "search_inv g src U dp"
      and sel: "getMinDistanceNode int_arith U (fst dp) = Some c"
  shows "search_inv g src (removeAll c U) (processNeighbors int_arith c (number_graph g) (removeAll c U) dp)"
proof -
  let ?K = "fst ` set g"
  let ?U' = "removeAll c U"
  let ?dp' = "processNeighbors int_arith c (number_graph g) ?U' dp"
  let ?d = "get_number int_arith (fst dp)" and ?p = "snd dp"
  let ?d' = "get_number int_arith (fst ?dp')" and ?p' = "snd ?dp'"
  let ?ns = "case map_of g c of None \<Rightarrow> [] | Some m \<Rightarrow> m"
  from getMinDistanceNode_Some[OF sel] obtain dc where cU: "c \<in> set U" and dc: "?d c = Num dc"
    and cmin: "\<And>v dv. v \<in> set U \<Longrightarrow> ?d v = Num dv \<Longrightarrow> dc \<le> dv"
    by blast
  note iU = search_invD(1)[OF inv] and iN = search_invD(2)[OF inv]
    and iS = search_invD(3,4)[OF inv] and iG = search_invD(5)[OF inv]
    and iD = search_invD(6)[OF inv] and iE = search_invD(7)[OF inv]
    and iF = search_invD(8)[OF inv] and iH = search_invD(9)[OF inv]
    and iI = search_invD(10)[OF inv]
  from cU iU have cK: "c \<in> ?K" by auto
  with ne have cne: "c \<noteq> []" by blast
  from iG[OF dc] have dc0: "0 \<le> dc" .
  have cU': "c \<notin> set ?U'" by simp
  have rel: "relaxed ?U' c dc ?ns dp ?dp'"
    using dc cU' by (rule processNeighbors_relaxed)
  have ns_edge: "\<And>v w. (v, w) \<in> set ?ns \<longleftrightarrow> edge_cost g c v = Some w"
    by (rule edge_cost_neighbors[OF wf])
  have upd: "(?d' v = ?d v \<and> ?p' v = ?p v) \<or>
             (v \<in> set ?U' \<and> ?p' v = Some c \<and>
              (\<exists>w. edge_cost g c v = Some w \<and> 0 \<le> w \<and> ?d' v = Num (dc + w) \<and>
                   lt (Num (dc + w)) (?d v)))" for v
  proof -
    from rel have "(fst ?dp' v = fst dp v \<and> ?p' v = ?p v) \<or>
           (v \<in> set ?U' \<and> ?p' v = Some c \<and>
            (\<exists>w. (v, w) \<in> set ?ns \<and> fst ?dp' v = Some (Num (dc + w)) \<and>
                 lt (Num (dc + w)) (?d v)))"
      unfolding relaxed_def by blast
    then show ?thesis
    proof
      assume "fst ?dp' v = fst dp v \<and> ?p' v = ?p v"
      then show ?thesis by (simp add: get_number_def)
    next
      assume "v \<in> set ?U' \<and> ?p' v = Some c \<and>
            (\<exists>w. (v, w) \<in> set ?ns \<and> fst ?dp' v = Some (Num (dc + w)) \<and>
                 lt (Num (dc + w)) (?d v))"
      then obtain w where "v \<in> set ?U'" "?p' v = Some c" "(v, w) \<in> set ?ns"
        "fst ?dp' v = Some (Num (dc + w))" "lt (Num (dc + w)) (?d v)" by blast
      moreover from this(3) have e: "edge_cost g c v = Some w" using ns_edge by blast
      moreover from edge_cost_nonneg[OF nn e] have "0 \<le> w" .
      ultimately show ?thesis by (auto simp: get_number_def)
    qed
  qed
  have out: "?d' v = ?d v \<and> ?p' v = ?p v" if "v \<notin> set ?U'" for v
    using upd[of v] that by blast
  have rle: "\<exists>dv. ?d' v = Num dv \<and> dv \<le> dc + w"
    if "edge_cost g c v = Some w" "v \<in> set ?U'" for v w
  proof -
    from that(1) have "(v, w) \<in> set ?ns" using ns_edge by blast
    with rel that(2) have n: "\<not> lt (Num (dc + w)) (?d' v)"
      unfolding relaxed_def by blast
    from that(2) iU have "v \<in> ?K" by auto
    from iN[OF this] upd[of v] have "?d' v \<noteq> NaN" by auto
    with n show ?thesis by (cases "?d' v") auto
  qed
  have lower: "dc + w < dv" if "lt (Num (dc + w)) (?d v)" "?d v = Num dv" for v w dv
    using that by simp

  have A: "set ?U' \<subseteq> ?K" using iU by auto
  have B: "\<forall>v \<in> ?K. ?d' v \<noteq> NaN"
  proof
    fix v assume "v \<in> ?K"
    from iN[OF this] upd[of v] show "?d' v \<noteq> NaN" by auto
  qed
  have G: "\<forall>v x. ?d' v = Num x \<longrightarrow> 0 \<le> x"
  proof (intro allI impI)
    fix v x assume x: "?d' v = Num x"
    from upd[of v] show "0 \<le> x"
    proof
      assume "?d' v = ?d v \<and> ?p' v = ?p v"
      with x iG[of v x] show ?thesis by simp
    next
      assume "v \<in> set ?U' \<and> ?p' v = Some c \<and>
              (\<exists>w. edge_cost g c v = Some w \<and> 0 \<le> w \<and> ?d' v = Num (dc + w) \<and>
                   lt (Num (dc + w)) (?d v))"
      with x dc0 show ?thesis by auto
    qed
  qed
  have C: "?d' src = Num 0 \<and> ?p' src = None"
  proof -
    from upd[of src] show ?thesis
    proof
      assume "?d' src = ?d src \<and> ?p' src = ?p src"
      with iS show ?thesis by simp
    next
      assume "src \<in> set ?U' \<and> ?p' src = Some c \<and>
              (\<exists>w. edge_cost g c src = Some w \<and> 0 \<le> w \<and> ?d' src = Num (dc + w) \<and>
                   lt (Num (dc + w)) (?d src))"
      then obtain w where "0 \<le> w" "lt (Num (dc + w)) (?d src)" by blast
      with iS(1) dc0 show ?thesis by simp
    qed
  qed
  have D: "\<forall>v u. ?p' v = Some u \<longrightarrow>
         u \<in> ?K \<and> u \<notin> set ?U' \<and> u \<noteq> [] \<and>
         (\<exists>du c. ?d' u = Num du \<and> edge_cost g u v = Some c \<and> ?d' v = Num (du + c))"
  proof (intro allI impI)
    fix v u assume pv: "?p' v = Some u"
    from upd[of v] show "u \<in> ?K \<and> u \<notin> set ?U' \<and> u \<noteq> [] \<and>
         (\<exists>du c. ?d' u = Num du \<and> edge_cost g u v = Some c \<and> ?d' v = Num (du + c))"
    proof
      assume same: "?d' v = ?d v \<and> ?p' v = ?p v"
      with pv have "?p v = Some u" by simp
      from iD[OF this] obtain du c' where u: "u \<in> ?K" "u \<notin> set U" "u \<noteq> []"
        and e: "?d u = Num du" "edge_cost g u v = Some c'" "?d v = Num (du + c')" by blast
      from u(2) have "u \<notin> set ?U'" by simp
      with out[of u] e same u show ?thesis by auto
    next
      assume "v \<in> set ?U' \<and> ?p' v = Some c \<and>
              (\<exists>w. edge_cost g c v = Some w \<and> 0 \<le> w \<and> ?d' v = Num (dc + w) \<and>
                   lt (Num (dc + w)) (?d v))"
      with pv obtain w where "u = c" "edge_cost g c v = Some w" "?d' v = Num (dc + w)" by auto
      with out[OF cU'] dc cK cne show ?thesis by auto
    qed
  qed
  have E: "\<forall>v x. ?d' v = Num x \<longrightarrow> v = src \<or> ?p' v \<noteq> None"
  proof (intro allI impI)
    fix v x assume x: "?d' v = Num x"
    from upd[of v] show "v = src \<or> ?p' v \<noteq> None"
    proof
      assume "?d' v = ?d v \<and> ?p' v = ?p v"
      with x iE[of v x] show ?thesis by auto
    next
      assume "v \<in> set ?U' \<and> ?p' v = Some c \<and>
              (\<exists>w. edge_cost g c v = Some w \<and> 0 \<le> w \<and> ?d' v = Num (dc + w) \<and>
                   lt (Num (dc + w)) (?d v))"
      then show ?thesis by simp
    qed
  qed
  have settled: "u = c \<or> u \<in> ?K - set U" if "u \<in> ?K - set ?U'" for u
    using that by auto
  have F: "\<forall>u \<in> ?K - set ?U'. \<exists>du. ?d' u = Num du"
  proof
    fix u assume u: "u \<in> ?K - set ?U'"
    then have "u \<notin> set ?U'" by simp
    from out[OF this] settled[OF u] dc iF show "\<exists>du. ?d' u = Num du" by auto
  qed
  have old_le: "du \<le> dc" if "u \<in> ?K - set U" "?d u = Num du" for u du
    using iH[OF that(1) cU that(2) dc] .
  have H: "\<forall>u \<in> ?K - set ?U'. \<forall>v \<in> set ?U'. \<forall>du dv.
         ?d' u = Num du \<longrightarrow> ?d' v = Num dv \<longrightarrow> du \<le> dv"
  proof (intro ballI allI impI)
    fix u v du dv
    assume u: "u \<in> ?K - set ?U'" and v: "v \<in> set ?U'" and du: "?d' u = Num du" and dv: "?d' v = Num dv"
    from u have "u \<notin> set ?U'" by simp
    from out[OF this] du have du0: "?d u = Num du" by simp
    from v have vU: "v \<in> set U" by simp
    have le: "du \<le> dc"
      using settled[OF u] du0 dc old_le by auto
    from upd[of v] show "du \<le> dv"
    proof
      assume "?d' v = ?d v \<and> ?p' v = ?p v"
      with dv have dv0: "?d v = Num dv" by simp
      from cmin[OF vU dv0] le show ?thesis by simp
    next
      assume "v \<in> set ?U' \<and> ?p' v = Some c \<and>
              (\<exists>w. edge_cost g c v = Some w \<and> 0 \<le> w \<and> ?d' v = Num (dc + w) \<and>
                   lt (Num (dc + w)) (?d v))"
      with dv obtain w where "0 \<le> w" "dv = dc + w" by auto
      with le show ?thesis by simp
    qed
  qed
  have I: "\<forall>u \<in> ?K - set ?U'. \<forall>v \<in> ?K. \<forall>w du.
         edge_cost g u v = Some w \<longrightarrow> ?d' u = Num du \<longrightarrow> (\<exists>dv. ?d' v = Num dv \<and> dv \<le> du + w)"
  proof (intro ballI allI impI)
    fix u v w du
    assume u: "u \<in> ?K - set ?U'" and v: "v \<in> ?K" and e: "edge_cost g u v = Some w"
      and du: "?d' u = Num du"
    from u have "u \<notin> set ?U'" by simp
    from out[OF this] du have du0: "?d u = Num du" by simp
    from edge_cost_nonneg[OF nn e] have w0: "0 \<le> w" .
    show "\<exists>dv. ?d' v = Num dv \<and> dv \<le> du + w"
    proof (cases "v \<in> set ?U'")
      case True
      show ?thesis
      proof (cases "u = c")
        case True
        with e \<open>v \<in> set ?U'\<close> rle[of v w] du0 dc show ?thesis by simp
      next
        case False
        with settled[OF u] have uS: "u \<in> ?K - set U" by simp
        from iI[OF uS v e du0] obtain dv0 where dv0: "?d v = Num dv0" "dv0 \<le> du + w" by blast
        from upd[of v] show ?thesis
        proof
          assume "?d' v = ?d v \<and> ?p' v = ?p v"
          with dv0 show ?thesis by simp
        next
          assume "v \<in> set ?U' \<and> ?p' v = Some c \<and>
              (\<exists>w. edge_cost g c v = Some w \<and> 0 \<le> w \<and> ?d' v = Num (dc + w) \<and>
                   lt (Num (dc + w)) (?d v))"
          then obtain w' where "?d' v = Num (dc + w')" "lt (Num (dc + w')) (?d v)" by blast
          with dv0 show ?thesis by auto
        qed
      qed
    next
      case False
      from out[OF False] have same: "?d' v = ?d v" by simp
      from False v have vc: "v = c \<or> v \<in> ?K - set U" by auto
      show ?thesis
      proof (cases "u = c")
        case True
        with du0 dc have "du = dc" by simp
        from vc show ?thesis
        proof
          assume "v = c"
          with same dc \<open>du = dc\<close> w0 show ?thesis by simp
        next
          assume vS: "v \<in> ?K - set U"
          from iF[OF vS] obtain dv where dv: "?d v = Num dv" by blast
          from old_le[OF vS dv] same dv \<open>du = dc\<close> w0 show ?thesis by simp
        qed
      next
        case False
        with settled[OF u] have uS: "u \<in> ?K - set U" by simp
        from iI[OF uS v e du0] same show ?thesis by simp
      qed
    qed
  qed
  from C have C1: "?d' src = Num 0" and C2: "?p' src = None" by simp_all
  show ?thesis
    unfolding search_inv_def by (intro conjI A B C1 C2 G D E F H I)
qed

lemma dijkstra_loop_post_gen:
  "ar = int_arith \<Longrightarrow> ng = number_graph g \<Longrightarrow>
   wf_graph g \<Longrightarrow> nonneg_costs g \<Longrightarrow> [] \<notin> fst ` set g \<Longrightarrow>
   search_inv g src U dp \<Longrightarrow> prev_inv U (snd dp) \<Longrightarrow>
   \<exists>U'. search_inv g src U' (dijkstra_loop ar ng dst U dp) \<and>
        prev_inv U' (snd (dijkstra_loop ar ng dst U dp)) \<and>
        search_done dst U' (fst (dijkstra_loop ar ng dst U dp))"
proof (induction ar ng dst U dp rule: dijkstra_loop.induct)
  case (1 ar ng dst U dp)
  note ar = "1.prems"(1) and ng = "1.prems"(2)
  note wf = "1.prems"(3) and nn = "1.prems"(4) and ne = "1.prems"(5)
    and inv = "1.prems"(6) and pinv = "1.prems"(7)
  note IH = "1.IH"[unfolded ar ng]
  have "\<exists>U'. search_inv g src U' (dijkstra_loop int_arith (number_graph g) dst U dp) \<and>
        prev_inv U' (snd (dijkstra_loop int_arith (number_graph g) dst U dp)) \<and>
        search_done dst U' (fst (dijkstra_loop int_arith (number_graph g) dst U dp))"
  proof (cases "length U > 0")
    case False
    then have "dijkstra_loop int_arith (number_graph g) dst U dp = dp" by (subst dijkstra_loop.simps) simp
    moreover from False have "search_done dst U (fst dp)" by (simp add: search_done_def)
    ultimately show ?thesis using inv pinv by auto
  next
    case len: True
    show ?thesis
    proof (cases "getMinDistanceNode int_arith U (fst dp)")
      case None
      with len have "dijkstra_loop int_arith (number_graph g) dst U dp = dp" by (subst dijkstra_loop.simps) simp
      moreover from getMinDistanceNode_None[OF None] have "search_done dst U (fst dp)"
        by (simp add: search_done_def)
      ultimately show ?thesis using inv pinv by auto
    next
      case (Some c)
      from getMinDistanceNode_Some[OF Some] obtain dc where cU: "c \<in> set U"
        and dc: "get_number int_arith (fst dp) c = Num dc"
        and cmin: "\<forall>v dv. v \<in> set U \<longrightarrow> get_number int_arith (fst dp) v = Num dv \<longrightarrow> dc \<le> dv"
        by blast
      from cU search_invD(1)[OF inv] ne have cne: "c \<noteq> []" by blast
      show ?thesis
      proof (cases "c = dst")
        case True
        with len Some have "dijkstra_loop int_arith (number_graph g) dst U dp = dp" by (subst dijkstra_loop.simps) simp
        moreover from True dc cmin have "search_done dst U (fst dp)"
          unfolding search_done_def by blast
        ultimately show ?thesis using inv pinv by auto
      next
        case False
        with cne have cont: "\<not> (c = [] \<or> c = dst)" by simp
        have eq: "dijkstra_loop int_arith (number_graph g) dst U dp =
                  dijkstra_loop int_arith (number_graph g) dst (removeAll c U) (processNeighbors int_arith c (number_graph g) (removeAll c U) dp)"
          using len Some cont by (subst dijkstra_loop.simps) simp
        have i': "search_inv g src (removeAll c U) (processNeighbors int_arith c (number_graph g) (removeAll c U) dp)"
          using wf nn ne inv Some by (rule search_inv_step)
        have p': "prev_inv (removeAll c U) (snd (processNeighbors int_arith c (number_graph g) (removeAll c U) dp))"
          using pinv cU processNeighbors_prev by (rule prev_inv_step)
        from IH[OF len Some cont refl refl wf nn ne i' p'] show ?thesis
          unfolding eq .
      qed
    qed
  qed
  then show ?case unfolding ar ng .
qed

lemma dijkstra_loop_post:
  "wf_graph g \<Longrightarrow> nonneg_costs g \<Longrightarrow> [] \<notin> fst ` set g \<Longrightarrow>
   search_inv g src U dp \<Longrightarrow> prev_inv U (snd dp) \<Longrightarrow>
   \<exists>U'. search_inv g src U' (dijkstra_loop int_arith (number_graph g) dst U dp) \<and>
        prev_inv U' (snd (dijkstra_loop int_arith (number_graph g) dst U dp)) \<and>
        search_done dst U' (fst (dijkstra_loop int_arith (number_graph g) dst U dp))"
  by (rule dijkstra_loop_post_gen[OF refl refl])

lemma path_cost_Cons2:
  "path_cost g (a # b # rest) = Some x \<longleftrightarrow>
     (\<exists>w x'. edge_cost g a b = Some w \<and> path_cost g (b # rest) = Some x' \<and> x = w + x')"
  by (auto split: option.splits)

lemma path_cost_nonneg:
  "nonneg_costs g \<Longrightarrow> path_cost g pth = Some x \<Longrightarrow> 0 \<le> x"
proof (induction g pth arbitrary: x rule: path_cost.induct)
  case (1 g)
  then show ?case by simp
next
  case (2 g a)
  then show ?case by simp
next
  case (3 g a b rest)
  from "3.prems"(2)[unfolded path_cost_Cons2] obtain w x' where e: "edge_cost g a b = Some w"
    and r: "path_cost g (b # rest) = Some x'" and x: "x = w + x'"
    by blast
  from "3.IH"[OF e "3.prems"(1) r] edge_cost_nonneg[OF "3.prems"(1) e] x show ?case by simp
qed

lemma path_cost_keys:
  "path_cost g pth = Some x \<Longrightarrow> last pth \<in> fst ` set g \<Longrightarrow> set pth \<subseteq> fst ` set g"
proof (induction g pth arbitrary: x rule: path_cost.induct)
  case (1 g)
  then show ?case by simp
next
  case (2 g a)
  then show ?case by simp
next
  case (3 g a b rest)
  from "3.prems"(1)[unfolded path_cost_Cons2] obtain w x' where e: "edge_cost g a b = Some w"
    and r: "path_cost g (b # rest) = Some x'"
    by blast
  from "3.IH"[OF e r] "3.prems"(2) edge_cost_key[OF e] show ?case by simp
qed

lemma path_lower_bound:
  assumes inv: "search_inv g src U dp" and nn: "nonneg_costs g"
      and bound: "\<forall>v \<in> set U. \<forall>dv. get_number int_arith (fst dp) v = Num dv \<longrightarrow> B \<le> dv"
  shows "path_cost g (a # rest) = Some x \<Longrightarrow> set (a # rest) \<subseteq> fst ` set g \<Longrightarrow>
         a \<notin> set U \<Longrightarrow> get_number int_arith (fst dp) a = Num da \<Longrightarrow>
         (\<exists>dt. get_number int_arith (fst dp) (last (a # rest)) = Num dt \<and> dt \<le> da + x) \<or> B \<le> da + x"
proof (induction rest arbitrary: a da x)
  case Nil
  then show ?case by simp
next
  case (Cons b rest)
  from Cons.prems(1)[unfolded path_cost_Cons2] obtain w x' where e: "edge_cost g a b = Some w"
    and r: "path_cost g (b # rest) = Some x'" and x: "x = w + x'"
    by blast
  from Cons.prems(2,3) have aS: "a \<in> fst ` set g - set U" and bK: "b \<in> fst ` set g"
    and sub: "set (b # rest) \<subseteq> fst ` set g" by auto
  from search_invD(10)[OF inv aS bK e Cons.prems(4)] obtain db where
    db: "get_number int_arith (fst dp) b = Num db" "db \<le> da + w" by blast
  from path_cost_nonneg[OF nn r] have x0: "0 \<le> x'" .
  show ?case
  proof (cases "b \<in> set U")
    case True
    with bound db(1) have "B \<le> db" by blast
    with db(2) x0 x show ?thesis by simp
  next
    case False
    from Cons.IH[OF r sub False db(1)] db(2) x show ?thesis by auto
  qed
qed

lemma path_cost_snoc:
  "path_cost g pth = Some x \<Longrightarrow> edge_cost g (last pth) v = Some c \<Longrightarrow>
   path_cost g (pth @ [v]) = Some (x + c)"
proof (induction g pth arbitrary: x rule: path_cost.induct)
  case (1 g)
  then show ?case by simp
next
  case (2 g a)
  then show ?case by simp
next
  case (3 g a b rest)
  from "3.prems"(1)[unfolded path_cost_Cons2] obtain w x' where e: "edge_cost g a b = Some w"
    and r: "path_cost g (b # rest) = Some x'" and x: "x = w + x'"
    by blast
  from "3.prems"(2) have "edge_cost g (last (b # rest)) v = Some c" by simp
  from "3.IH"[OF e r this] e x show ?case by simp
qed

lemma walk_extend:
  assumes v: "v \<noteq> []" "v \<noteq> src" and pv: "p v = Some u" and u: "u \<noteq> []"
      and e: "edge_cost g u v = Some c"
      and w: "reconstructPath_loop src p (v # acc) (Some u) = Some (pre @ v # acc, Some src)"
      and pc: "path_cost g (src # pre) = Some du" and l: "last (src # pre) = u"
  shows "reconstructPath_loop src p acc (Some v) = Some ((pre @ [v]) @ acc, Some src) \<and>
         path_cost g (src # pre @ [v]) = Some (du + c) \<and> last (src # pre @ [v]) = v"
proof -
  from pv u have "next_node p v = Some u" by (simp add: next_node_def)
  with v w have "reconstructPath_loop src p acc (Some v) = Some ((pre @ [v]) @ acc, Some src)"
    by (simp add: reconstructPath_loop_unfold)
  moreover from path_cost_snoc[OF pc, of v c] e l
  have "path_cost g (src # pre @ [v]) = Some (du + c)" by simp
  ultimately show ?thesis by simp
qed

lemma walk_path_settled:
  assumes inv: "search_inv g src U dp" and ne: "[] \<notin> fst ` set g"
      and r: "\<And>v u. snd dp v = Some u \<Longrightarrow> u \<notin> set U \<and> (v \<notin> set U \<longrightarrow> (r::string \<Rightarrow> nat) u < r v)"
  shows "v \<in> fst ` set g - set U \<Longrightarrow> get_number int_arith (fst dp) v = Num x \<Longrightarrow>
         \<exists>pre. reconstructPath_loop src (snd dp) acc (Some v) = Some (pre @ acc, Some src) \<and>
               path_cost g (src # pre) = Some x \<and> last (src # pre) = v"
proof (induction "r v" arbitrary: v x acc rule: less_induct)
  case less
  show ?case
  proof (cases "v = src")
    case True
    with search_invD(3)[OF inv] less.prems(2) have "x = 0" by simp
    with True show ?thesis by (simp add: reconstructPath_loop_unfold)
  next
    case False
    from less.prems(1) ne have vne: "v \<noteq> []" by blast
    from search_invD(7)[OF inv less.prems(2)] False obtain u where pv: "snd dp v = Some u"
      by auto
    from search_invD(6)[OF inv pv] less.prems(2) obtain du c where
      u: "u \<in> fst ` set g" "u \<notin> set U" "u \<noteq> []" and du: "get_number int_arith (fst dp) u = Num du"
      and e: "edge_cost g u v = Some c" and x: "x = du + c" by auto
    from r[OF pv] less.prems(1) have "r u < r v" by simp
    from less.hyps[OF this _ du, of "v # acc"] u obtain pre where
      w: "reconstructPath_loop src (snd dp) (v # acc) (Some u) = Some (pre @ v # acc, Some src)"
      and pc: "path_cost g (src # pre) = Some du" and l: "last (src # pre) = u" by auto
    from walk_extend[OF vne False pv u(3) e w pc l] x show ?thesis by blast
  qed
qed

lemma walk_path:
  assumes inv: "search_inv g src U dp" and ne: "[] \<notin> fst ` set g" and pinv: "prev_inv U (snd dp)"
      and v: "v \<in> fst ` set g" and x: "get_number int_arith (fst dp) v = Num x"
  shows "\<exists>pre. reconstructPath_loop src (snd dp) acc (Some v) = Some (pre @ acc, Some src) \<and>
               path_cost g (src # pre) = Some x \<and> last (src # pre) = v"
proof -
  from pinv obtain r :: "string \<Rightarrow> nat" where
    r: "\<And>v u. snd dp v = Some u \<Longrightarrow> u \<notin> set U \<and> (v \<notin> set U \<longrightarrow> r u < r v)"
    unfolding prev_inv_def by blast
  show ?thesis
  proof (cases "v = src")
    case True
    with search_invD(3)[OF inv] x have "x = 0" by simp
    with True show ?thesis by (simp add: reconstructPath_loop_unfold)
  next
    case False
    from v ne have vne: "v \<noteq> []" by blast
    from search_invD(7)[OF inv x] False obtain u where pv: "snd dp v = Some u"
      by auto
    from search_invD(6)[OF inv pv] x obtain du c where
      u: "u \<in> fst ` set g" "u \<notin> set U" "u \<noteq> []" and du: "get_number int_arith (fst dp) u = Num du"
      and e: "edge_cost g u v = Some c" and xe: "x = du + c" by auto
    from u have "u \<in> fst ` set g - set U" by simp
    from walk_path_settled[of g src U dp r u du "v # acc", OF inv ne r this du] obtain pre where
      w: "reconstructPath_loop src (snd dp) (v # acc) (Some u) = Some (pre @ v # acc, Some src)"
      and pc: "path_cost g (src # pre) = Some du" and l: "last (src # pre) = u" by auto
    from walk_extend[OF vne False pv u(3) e w pc l] xe show ?thesis by blast
  qed
qed

lemma reconstructPath_finite:
  assumes inv: "search_inv g src U dp" and ne: "[] \<notin> fst ` set g" and pinv: "prev_inv U (snd dp)"
      and s: "src \<in> fst ` set g" and v: "dst \<in> fst ` set g" and x: "get_number int_arith (fst dp) dst = Num x"
  shows "\<exists>pth. reconstructPath src dst (snd dp) = Some (Some pth) \<and> is_path g src dst pth \<and>
               path_cost g pth = Some x"
proof -
  from walk_path[OF inv ne pinv v x, of "[]"] obtain pre where
    w: "reconstructPath_loop src (snd dp) [] (Some dst) = Some (pre, Some src)"
    and pc: "path_cost g (src # pre) = Some x" and l: "last (src # pre) = dst" by auto
  from s ne have "src \<noteq> []" by blast
  with w have "reconstructPath src dst (snd dp) = Some (Some (src # pre))"
    by (simp add: reconstructPath_def truthy_def)
  with pc l show ?thesis by (auto simp: is_path_def)
qed

lemma reconstructPath_infinite:
  assumes inv: "search_inv g src U dp" and ne: "[] \<notin> fst ` set g"
      and v: "dst \<in> fst ` set g" and x: "\<forall>a. get_number int_arith (fst dp) dst \<noteq> Num a"
  shows "reconstructPath src dst (snd dp) = Some None"
proof -
  from v ne have dne: "dst \<noteq> []" by blast
  from search_invD(3)[OF inv] x have ds: "dst \<noteq> src" by auto
  have "snd dp dst = None"
  proof (cases "snd dp dst")
    case None
    then show ?thesis .
  next
    case (Some u)
    from search_invD(6)[OF inv Some] x show ?thesis by auto
  qed
  then have "next_node (snd dp) dst = None" by (simp add: next_node_def)
  with dne ds show ?thesis
    by (simp add: reconstructPath_def reconstructPath_loop_unfold reconstructPath_loop_None truthy_def)
qed

lemma search_lower_bound:
  assumes inv: "search_inv g src U dp" and nn: "nonneg_costs g"
      and fin: "search_done dst U (fst dp)"
      and dK: "dst \<in> fst ` set g"
      and pth: "is_path g src dst pth" and x: "path_cost g pth = Some x"
  shows "\<exists>dd. get_number int_arith (fst dp) dst = Num dd \<and> dd \<le> x"
proof -
  from pth obtain rest where p: "pth = src # rest" and l: "last (src # rest) = dst"
    by (cases pth) (auto simp: is_path_def)
  from path_cost_keys[OF x] pth dK have sub: "set (src # rest) \<subseteq> fst ` set g"
    by (simp add: is_path_def p)
  from path_cost_nonneg[OF nn x] have x0: "0 \<le> x" .
  note s0 = search_invD(3)[OF inv]
  show ?thesis
  proof (cases "src \<in> set U")
    case True
    from fin[unfolded search_done_def] show ?thesis
    proof
      assume "\<forall>v \<in> set U. \<forall>a. get_number int_arith (fst dp) v \<noteq> Num a"
      with True s0 show ?thesis by blast
    next
      assume "\<exists>dd. get_number int_arith (fst dp) dst = Num dd \<and>
            (\<forall>v \<in> set U. \<forall>dv. get_number int_arith (fst dp) v = Num dv \<longrightarrow> dd \<le> dv)"
      then obtain dd where dd: "get_number int_arith (fst dp) dst = Num dd"
        and m: "\<forall>v \<in> set U. \<forall>dv. get_number int_arith (fst dp) v = Num dv \<longrightarrow> dd \<le> dv" by blast
      from m True s0 have "dd \<le> 0" by blast
      with dd x0 show ?thesis by simp
    qed
  next
    case False
    from fin[unfolded search_done_def] show ?thesis
    proof
      assume "\<forall>v \<in> set U. \<forall>a. get_number int_arith (fst dp) v \<noteq> Num a"
      then have b: "\<forall>v \<in> set U. \<forall>dv. get_number int_arith (fst dp) v = Num dv \<longrightarrow> x + 1 \<le> dv" by blast
      from path_lower_bound[OF inv nn b x[unfolded p] sub False s0] l show ?thesis by simp
    next
      assume "\<exists>dd. get_number int_arith (fst dp) dst = Num dd \<and>
            (\<forall>v \<in> set U. \<forall>dv. get_number int_arith (fst dp) v = Num dv \<longrightarrow> dd \<le> dv)"
      then obtain dd where dd: "get_number int_arith (fst dp) dst = Num dd"
        and m: "\<forall>v \<in> set U. \<forall>dv. get_number int_arith (fst dp) v = Num dv \<longrightarrow> dd \<le> dv" by blast
      from path_lower_bound[OF inv nn m x[unfolded p] sub False s0] l dd show ?thesis by auto
    qed
  qed
qed

text \<open>
  In the exact arithmetic, on a well-formed graph with non-negative integer costs in
  which no key is the empty identifier, for a start and an end that are keys: the search
  returns null exactly when no path leads from the start to the end, and otherwise it
  returns a path from the start to the end together with its cost, which no path from
  the start to the end undercuts.
\<close>

theorem dijkstra_correct_on_nonempty_ids:
  assumes wf: "wf_graph g" and nn: "nonneg_costs g" and ne: "[] \<notin> fst ` set g"
      and sK: "src \<in> fst ` set g" and dK: "dst \<in> fst ` set g"
  shows "(dijkstra int_arith (number_graph g) src dst = Some None \<longleftrightarrow>
            \<not> (\<exists>pth. is_path g src dst pth)) \<and>
         (dijkstra int_arith (number_graph g) src dst = Some None \<or>
          (\<exists>pth x. dijkstra int_arith (number_graph g) src dst = Some (Some (pth, Num x)) \<and>
                   is_path g src dst pth \<and> path_cost g pth = Some x \<and>
                   (\<forall>pth' x'. is_path g src dst pth' \<longrightarrow> path_cost g pth' = Some x' \<longrightarrow> x \<le> x')))"
proof -
  let ?u = "map fst g"
  let ?dp = "dijkstra_loop int_arith (number_graph g) dst ?u (init_distances int_arith ?u src, Map.empty)"
  have i0: "search_inv g src ?u (init_distances int_arith ?u src, Map.empty)"
    by (rule search_inv_init)
  have p0: "prev_inv ?u (snd (init_distances int_arith ?u src, Map.empty :: previous))"
    by (simp add: prev_inv_empty)
  from dijkstra_loop_post[OF wf nn ne i0 p0, of dst] obtain U where
    inv: "search_inv g src U ?dp" and pinv: "prev_inv U (snd ?dp)"
    and fin: "search_done dst U (fst ?dp)" by blast
  have res: "dijkstra int_arith (number_graph g) src dst =
      (case reconstructPath src dst (snd ?dp) of
         None \<Rightarrow> None
       | Some None \<Rightarrow> Some None
       | Some (Some pth) \<Rightarrow> Some (Some (pth, get_number int_arith (fst ?dp) dst)))"
    by (simp add: dijkstra_def Let_def)
  show ?thesis
  proof (cases "\<exists>dd. get_number int_arith (fst ?dp) dst = Num dd")
    case True
    then obtain dd where dd: "get_number int_arith (fst ?dp) dst = Num dd" by blast
    from reconstructPath_finite[OF inv ne pinv sK dK dd] obtain pth where
      r: "reconstructPath src dst (snd ?dp) = Some (Some pth)" and ip: "is_path g src dst pth"
      and pc: "path_cost g pth = Some dd" by blast
    from res r dd have d: "dijkstra int_arith (number_graph g) src dst = Some (Some (pth, Num dd))" by simp
    have opt: "dd \<le> x'" if "is_path g src dst pth'" "path_cost g pth' = Some x'" for pth' x'
      using search_lower_bound[OF inv nn fin dK that] dd by simp
    from d ip pc opt show ?thesis by auto
  next
    case False
    then have "\<forall>a. get_number int_arith (fst ?dp) dst \<noteq> Num a" by simp
    from reconstructPath_infinite[OF inv ne dK this] res
    have d: "dijkstra int_arith (number_graph g) src dst = Some None" by simp
    have "\<not> (\<exists>pth. is_path g src dst pth)"
    proof
      assume "\<exists>pth. is_path g src dst pth"
      then obtain pth x where "is_path g src dst pth" "path_cost g pth = Some x"
        by (auto simp: is_path_def)
      from search_lower_bound[OF inv nn fin dK this] False show False by blast
    qed
    with d show ?thesis by simp
  qed
qed

theorem dijkstra_correct_on_nonempty_ids_witness:
  "dijkstra int_arith (number_graph triangle) ''A'' ''C'' = Some (Some ([''A'', ''B'', ''C''], Num 3)) \<and>
   path_cost triangle [''A'', ''C''] = Some 4 \<and>
   (\<forall>pth x. is_path triangle ''A'' ''C'' pth \<longrightarrow> path_cost triangle pth = Some x \<longrightarrow> 3 \<le> x)"
proof -
  have wf: "wf_graph triangle" by (simp add: wf_graph_def triangle_def)
  have nn: "nonneg_costs triangle" by (simp add: nonneg_costs_def triangle_def)
  have ne: "[] \<notin> fst ` set triangle" by (simp add: triangle_def)
  have k: "''A'' \<in> fst ` set triangle" "''C'' \<in> fst ` set triangle" by (simp_all add: triangle_def)
  have d: "dijkstra int_arith (number_graph triangle) ''A'' ''C'' = Some (Some ([''A'', ''B'', ''C''], Num 3))"
    by code_simp
  have c: "path_cost triangle [''A'', ''C''] = Some 4"
    by code_simp
  from dijkstra_correct_on_nonempty_ids[OF wf nn ne k] d c show ?thesis by auto
qed

text \<open>
  C1, at a failing input. From the edges A -- "" of cost 1, "" -- C of cost 1 and
  A -- C of cost 10 buildGraph makes a graph with the keys A, "" and C and non-negative
  costs. In it the search from A to C returns the path A, C of cost 10 although the path
  A, "", C costs 2, and so does findOptimalPath; and the search from A to "" returns null
  although the edge A -- "" is a path. The empty identifier is falsy: the loop of the
  search stops when it is the selected node, and the walk back gives up when it is the
  end. The numbers that occur are the integers 0, 1, 2 and 10 and \<^verbatim>\<open>Infinity\<close>, on which
  the doubles add and compare as \<open>int_arith\<close> does.
\<close>

theorem shortest_path_missed_through_empty_id:
  "buildGraph (edges request_through_empty_id) [] = Inr (number_graph graph_with_empty_id) \<and>
   dijkstra int_arith (number_graph graph_with_empty_id) ''A'' ''C'' =
     Some (Some ([''A'', ''C''], Num 10)) \<and>
   path_cost graph_with_empty_id [''A'', '''', ''C''] = Some 2 \<and>
   findOptimalPath int_arith request_through_empty_id =
     Some (Inr \<lparr>path = [''A'', ''C''], totalCost = Num 10\<rparr>) \<and>
   dijkstra int_arith (number_graph graph_with_empty_id) ''A'' '''' = Some None \<and>
   path_cost graph_with_empty_id [''A'', ''''] = Some 1"
  by code_simp

section \<open>Properties of the required stops\<close>

lemma segments_found_nth:
  assumes "segments_found ar g sq segs"
  shows "length segs = length sq - 1"
    and "j < length sq - 1 \<Longrightarrow> dijkstra ar g (sq ! j) (sq ! (j + 1)) = Some (Some (segs ! j))"
proof -
  from assms have len: "length (zip sq (tl sq)) = length segs"
    and nth: "\<And>j. j < length segs \<Longrightarrow>
      dijkstra ar g (fst (zip sq (tl sq) ! j)) (snd (zip sq (tl sq) ! j)) = Some (Some (segs ! j))"
    by (auto simp: segments_found_def list_all2_conv_all_nth)
  from len show l: "length segs = length sq - 1" by simp
  assume j: "j < length sq - 1"
  with l nth[of j] show "dijkstra ar g (sq ! j) (sq ! (j + 1)) = Some (Some (segs ! j))"
    by (simp add: nth_tl)
qed

lemma findPath_loop_rest:
  "length segs = length sq - 1 \<Longrightarrow>
   (\<forall>j < length sq - 1. dijkstra ar g (sq ! j) (sq ! (j + 1)) = Some (Some (segs ! j))) \<Longrightarrow>
   0 < i \<Longrightarrow> i \<le> length sq - 1 \<Longrightarrow>
   findPath_loop ar g sq i accPath accCost =
     Some (Some (accPath @ concat (map (drop 1) (map fst (drop i segs))),
                 foldl (js_plus ar) accCost (map snd (drop i segs))))"
proof (induction ar g sq i accPath accCost rule: findPath_loop.induct)
  case (1 ar g sq i accPath accCost)
  note len = "1.prems"(1) and seg = "1.prems"(2) and pos = "1.prems"(3) and le = "1.prems"(4)
  show ?case
  proof (cases "i < length sq - 1")
    case False
    with le len show ?thesis by (subst findPath_loop.simps) simp
  next
    case True
    obtain pth c where pc: "segs ! i = (pth, c)" by (cases "segs ! i")
    with seg True have d: "dijkstra ar g (sq ! i) (sq ! (i + 1)) = Some (Some (pth, c))" by simp
    from True len have dr: "drop i segs = (pth, c) # drop (Suc i) segs"
      using Cons_nth_drop_Suc[of i segs] pc by simp
    from True have "i + 1 \<le> length sq - 1" by simp
    from "1.IH"[OF True d refl refl len seg _ this] pos
    have "findPath_loop ar g sq (i + 1) (accPath @ drop 1 pth) (js_plus ar accCost c) =
           Some (Some ((accPath @ drop 1 pth) @ concat (map (drop 1) (map fst (drop (i + 1) segs))),
                       foldl (js_plus ar) (js_plus ar accCost c) (map snd (drop (i + 1) segs))))"
      by simp
    with True d dr pos show ?thesis by (subst findPath_loop.simps) simp
  qed
qed

lemma findPath_loop_all:
  assumes "segments_found ar g sq segs" "2 \<le> length sq"
  shows "findPath_loop ar g sq 0 [] (js_zero ar) =
           Some (Some (stitch (map fst segs), foldl (js_plus ar) (js_zero ar) (map snd segs)))"
proof -
  note len = segments_found_nth(1)[OF assms(1)]
  note seg = segments_found_nth(2)[OF assms(1)]
  from assms(2) have pos: "0 < length sq - 1" by simp
  obtain pth c where pc: "segs ! 0 = (pth, c)" by (cases "segs ! 0")
  with seg[OF pos] have d: "dijkstra ar g (sq ! 0) (sq ! (0 + 1)) = Some (Some (pth, c))" by simp
  from pos len pc have segs: "segs = (pth, c) # drop 1 segs"
    by (cases segs) auto
  from pos have "(1::nat) \<le> length sq - 1" by simp
  from seg have "\<forall>j < length sq - 1. dijkstra ar g (sq ! j) (sq ! (j + 1)) = Some (Some (segs ! j))"
    by blast
  from findPath_loop_rest[of segs sq ar g 1 pth "js_plus ar (js_zero ar) c", OF len this _ \<open>1 \<le> length sq - 1\<close>]
  have "findPath_loop ar g sq 1 pth (js_plus ar (js_zero ar) c) =
          Some (Some (pth @ concat (map (drop 1) (map fst (drop 1 segs))),
                      foldl (js_plus ar) (js_plus ar (js_zero ar) c) (map snd (drop 1 segs))))"
    by simp
  moreover have "stitch (map fst segs) = pth @ concat (map (drop 1) (map fst (drop 1 segs)))"
    by (subst segs) (simp add: stitch_def)
  moreover have "foldl (js_plus ar) (js_zero ar) (map snd segs) = foldl (js_plus ar) (js_plus ar (js_zero ar) c) (map snd (drop 1 segs))"
    by (subst segs) simp
  ultimately show ?thesis
    using pos d by (subst findPath_loop.simps) simp
qed

lemma findPath_loop_fails:
  "k < length sq - 1 \<Longrightarrow> dijkstra ar g (sq ! k) (sq ! (k + 1)) = Some None \<Longrightarrow> i \<le> k \<Longrightarrow>
   findPath_loop ar g sq i accPath accCost = Some None"
proof (induction ar g sq i accPath accCost rule: findPath_loop.induct)
  case (1 ar g sq i accPath accCost)
  note k = "1.prems"(1) and none = "1.prems"(2) and le = "1.prems"(3)
  from le k have lt: "i < length sq - 1" by simp
  obtain res where res: "dijkstra ar g (sq ! i) (sq ! (i + 1)) = Some res"
    using dijkstra_terminates by blast
  show ?case
  proof (cases res)
    case None
    with res lt show ?thesis by (subst findPath_loop.simps) simp
  next
    case (Some seg)
    obtain pth c where seg: "seg = (pth, c)" by (cases seg)
    from Some res none have "i \<noteq> k" by auto
    with le have "i + 1 \<le> k" by simp
    from "1.IH"[OF lt res[unfolded Some seg] refl refl k none this] lt res Some seg
    show ?thesis by (subst findPath_loop.simps) simp
  qed
qed

lemma findPath_loop_terminates: "\<exists>res. findPath_loop ar g sq i accPath accCost = Some res"
proof (induction ar g sq i accPath accCost rule: findPath_loop.induct)
  case (1 ar g sq i accPath accCost)
  show ?case
  proof (cases "i < length sq - 1")
    case False
    then show ?thesis by (subst findPath_loop.simps) simp
  next
    case True
    obtain res where res: "dijkstra ar g (sq ! i) (sq ! (i + 1)) = Some res"
      using dijkstra_terminates by blast
    show ?thesis
    proof (cases res)
      case None
      with res True show ?thesis by (subst findPath_loop.simps) simp
    next
      case (Some seg)
      obtain pth c where seg: "seg = (pth, c)" by (cases seg)
      from "1.IH"[OF True res[unfolded Some seg] refl refl] True res Some seg
      show ?thesis by (subst findPath_loop.simps) simp
    qed
  qed
qed

lemma findOptimalPath_terminates: "\<exists>res. findOptimalPath ar r = Some res"
proof -
  obtain g where "buildGraph (edges r) (blockedNodes (constraints r)) = Inr g"
    using buildGraph_total by blast
  moreover obtain res where
    "findPathWithRequiredStops ar g (start r) (end_node r) (requiredStops (constraints r)) = Some res"
    unfolding findPathWithRequiredStops_def by (rule exE[OF findPath_loop_terminates])
  ultimately show ?thesis
    by (cases res) (auto simp: findOptimalPath_def Let_def split: sum.splits)
qed

lemma findOptimalPath_self:
  assumes b: "basic_order ar"
      and s: "start r \<noteq> []" "end_node r = start r" "requiredStops (constraints r) = []"
      and v: "validateNodesExist (nodes r) (edges r) [start r] = Inr ()"
  shows "findOptimalPath ar r =
           Some (Inr \<lparr>path = [start r], totalCost = js_plus ar (js_zero ar) (js_zero ar)\<rparr>)"
proof -
  obtain g where g: "buildGraph (edges r) (blockedNodes (constraints r)) = Inr g"
    using buildGraph_total by blast
  have "findPathWithRequiredStops ar g (start r) (start r) [] =
          Some (Some ([start r], js_plus ar (js_zero ar) (js_zero ar)))"
    unfolding findPathWithRequiredStops_def
    by (subst findPath_loop.simps, simp add: dijkstra_self[OF b s(1)])
       (subst findPath_loop.simps, simp)
  with s v g show ?thesis
    by (simp add: findOptimalPath_def Let_def)
qed

text \<open>
  C3, at a failing input. For the empty identifier the search from a node to itself
  returns null, in a graph that has the node as a key, and findOptimalPath with start
  and end both the empty identifier, declared in nodes, and no required stops, fails
  with the message of no path, instead of returning the path of that one node with cost 0.
  This is so in every arithmetic and for every cost \<open>w\<close> of the edge. For every
  non-empty identifier the search and findOptimalPath do return that path
  (\<open>dijkstra_self\<close>, \<open>findOptimalPath_self\<close>).
\<close>

theorem self_path_of_empty_id_not_found:
  "buildGraph (edges (request_empty_id w)) (blockedNodes (constraints (request_empty_id w))) =
     Inr [('''', [(''B'', w)]), (''B'', [('''', w)])] \<and>
   dijkstra ar [('''', [(''B'', w)]), (''B'', [('''', w)])] '''' '''' = Some None \<and>
   findOptimalPath ar (request_empty_id w) =
     Some (Inl (HttpException
       ''No valid path found that satisfies all constraints of '' BAD_REQUEST))"
proof (intro conjI)
  show g: "buildGraph (edges (request_empty_id w)) (blockedNodes (constraints (request_empty_id w))) =
     Inr [('''', [(''B'', w)]), (''B'', [('''', w)])]"
    by (simp add: request_empty_id_def buildGraph_def buildGraph_step_def ensure_node_def
          set_neighbor_def)
  show "dijkstra ar [('''', [(''B'', w)]), (''B'', [('''', w)])] '''' '''' = Some None"
    by (rule dijkstra_empty_end)
  have "findPathWithRequiredStops ar [('''', [(''B'', w)]), (''B'', [('''', w)])] [] [] [] = Some None"
    unfolding findPathWithRequiredStops_def
    by (subst findPath_loop.simps) (simp add: dijkstra_empty_end)
  moreover have "validateNodesExist (nodes (request_empty_id w)) (edges (request_empty_id w))
           (requiredStops (constraints (request_empty_id w)) @ [end_node (request_empty_id w)]) = Inr ()"
    by (simp add: request_empty_id_def validateNodesExist_def)
  ultimately show "findOptimalPath ar (request_empty_id w) =
     Some (Inl (HttpException
       ''No valid path found that satisfies all constraints of '' BAD_REQUEST))"
    using g by (simp add: findOptimalPath_def Let_def NoPathFound_def array_toString_def
                  request_empty_id_def)
qed

text \<open>
  C2: with the sequence start, required stops, end, when the single-pair search returns
  a segment on every consecutive pair of the sequence, findPathWithRequiredStops returns
  the first segment followed by every later segment without its first node, and as the
  cost the sum of the costs of the segments, which is the sum \<^verbatim>\<open>0 + c1 + c2 + ...\<close>
  evaluated from the left as the loop does. This holds in every arithmetic: nothing is
  assumed of the addition, neither that it is exact nor that it is associative.
\<close>

theorem required_stops_stitched:
  assumes "segments_found ar g (waypoints src stops dst) segs"
  shows "findPathWithRequiredStops ar g src dst stops =
           Some (Some (stitch (map fst segs),
                       foldl (js_plus ar) (js_zero ar) (map snd segs)))"
proof -
  have "2 \<le> length (waypoints src stops dst)" by (simp add: waypoints_def)
  from findPath_loop_all[OF assms this] show ?thesis
    by (simp add: findPathWithRequiredStops_def waypoints_def)
qed

theorem required_stops_stitched_witness:
  "findPathWithRequiredStops int_arith (number_graph triangle) ''A'' ''C'' [''B''] =
     Some (Some ([''A'', ''B'', ''C''], Num 3))"
proof -
  have a: "dijkstra int_arith (number_graph triangle) ''A'' ''B'' = Some (Some ([''A'', ''B''], Num 1))"
    by code_simp
  have b: "dijkstra int_arith (number_graph triangle) ''B'' ''C'' = Some (Some ([''B'', ''C''], Num 2))"
    by code_simp
  have "segments_found int_arith (number_graph triangle) (waypoints ''A'' [''B''] ''C'')
          [([''A'', ''B''], Num 1), ([''B'', ''C''], Num 2)]"
    by (simp add: segments_found_def waypoints_def a b)
  from required_stops_stitched[OF this] show ?thesis
    by (simp add: stitch_def)
qed

text \<open>
  C5: for a request that passes validateNodesExist, if the single-pair search returns
  null on some consecutive pair of the sequence start, required stops, end, in the graph
  built from the request, then findOptimalPath fails with the message "No valid path
  found that satisfies all constraints of " followed by the required stops joined by
  commas; the result is that failure and no path or cost.
\<close>

theorem no_path_reported:
  assumes valid: "validateNodesExist (nodes r) (edges r)
                    (requiredStops (constraints r) @ [end_node r]) = Inr ()"
      and g: "buildGraph (edges r) (blockedNodes (constraints r)) = Inr g"
      and i: "i < length (waypoints (start r) (requiredStops (constraints r)) (end_node r)) - 1"
      and none: "dijkstra ar g (waypoints (start r) (requiredStops (constraints r)) (end_node r) ! i)
                   (waypoints (start r) (requiredStops (constraints r)) (end_node r) ! (i + 1))
                 = Some None"
  shows "findOptimalPath ar r = Some (Inl (NoPathFound (requiredStops (constraints r))))"
proof -
  have "findPathWithRequiredStops ar g (start r) (end_node r) (requiredStops (constraints r)) = Some None"
    unfolding findPathWithRequiredStops_def
    using findPath_loop_fails[OF i[unfolded waypoints_def] none[unfolded waypoints_def], of 0] by simp
  with valid g show ?thesis
    by (simp add: findOptimalPath_def Let_def NoPathFound_def)
qed

theorem no_path_reported_witness:
  "findOptimalPath int_arith request_unreachable_stop =
     Some (Inl (HttpException
       ''No valid path found that satisfies all constraints of B,D'' BAD_REQUEST))"
proof -
  let ?g = "[(''A'', [(''B'', Num 1)]), (''B'', [(''A'', Num 1)]),
            (''C'', [(''D'', Num 3)]), (''D'', [(''C'', Num 3)])]"
  have v: "validateNodesExist (nodes request_unreachable_stop) (edges request_unreachable_stop)
             (requiredStops (constraints request_unreachable_stop) @ [end_node request_unreachable_stop])
           = Inr ()"
    by (simp add: validateNodesExist_def request_unreachable_stop_def)
  have g: "buildGraph (edges request_unreachable_stop)
             (blockedNodes (constraints request_unreachable_stop)) = Inr ?g"
    by (simp add: request_unreachable_stop_def buildGraph_def buildGraph_step_def ensure_node_def
          set_neighbor_def)
  have w: "waypoints (start request_unreachable_stop)
             (requiredStops (constraints request_unreachable_stop))
             (end_node request_unreachable_stop) = [''A'', ''B'', ''D'', ''C'']"
    by (simp add: waypoints_def request_unreachable_stop_def)
  have n: "dijkstra int_arith ?g ''B'' ''D'' = Some None"
    by code_simp
  have "findOptimalPath int_arith request_unreachable_stop =
          Some (Inl (NoPathFound (requiredStops (constraints request_unreachable_stop))))"
    by (rule no_path_reported[OF v g, of 1]) (simp_all add: w n)
  then show ?thesis
    by (simp add: NoPathFound_def request_unreachable_stop_def array_toString_def)
qed

section \<open>Blocked nodes and the returned path\<close>

lemma walk_nodes:
  assumes "reconstructPath_loop src p acc cur = Some res"
  shows "walk_post src p acc cur res"
proof (rule reconstructPath_loop.raw_induct[where P = walk_post], goal_cases)
  case (1 walk src p acc cur res)
  note ih = 1(1) and eq = 1(2)
  show ?case
  proof (cases cur)
    case None
    with eq show ?thesis by (auto simp: walk_post_def)
  next
    case (Some c)
    show ?thesis
    proof (cases "c \<noteq> [] \<and> c \<noteq> src")
      case False
      with Some eq have "res = (acc, cur)" by auto
      then show ?thesis using Some by (auto simp: walk_post_def)
    next
      case True
      let ?next = "case p c of None \<Rightarrow> None | Some q \<Rightarrow> if q = [] then None else Some q"
      from True Some eq have w: "walk src p (c # acc) ?next = Some res" by simp
      note post = ih[OF w]
      show ?thesis
      proof (cases "p c")
        case None
        with post have "res = (c # acc, None)" by (simp add: walk_post_def)
        then show ?thesis using Some by (simp add: truthy_def walk_post_def)
      next
        case (Some q)
        then have "c \<in> dom p" by auto
        with post \<open>cur = Some c\<close> show ?thesis by (auto simp: walk_post_def)
      qed
    qed
  qed
next
  case 2
  show ?case by (rule assms)
qed

lemma reconstructPath_nodes:
  assumes "reconstructPath src dst p = Some (Some pth)"
  shows "\<exists>rest. pth = src # rest \<and> set rest \<subseteq> dom p"
proof -
  from assms obtain acc cur where w: "reconstructPath_loop src p [] (Some dst) = Some (acc, cur)"
    and t: "truthy cur" and pth: "pth = src # acc"
    by (auto simp: reconstructPath_def split: option.splits prod.splits if_splits)
  from walk_nodes[OF w] t have "set acc \<subseteq> dom p" by (simp add: walk_post_def)
  with pth show ?thesis by blast
qed

lemma processNeighbors_dom:
  "dom (snd (processNeighbors ar c g U dp)) \<subseteq> dom (snd dp) \<union> set U"
proof
  fix v assume "v \<in> dom (snd (processNeighbors ar c g U dp))"
  with processNeighbors_prev[of ar c g U dp v] show "v \<in> dom (snd dp) \<union> set U" by auto
qed

lemma dijkstra_loop_dom:
  "set U \<subseteq> fst ` set g \<Longrightarrow> dom (snd dp) \<subseteq> fst ` set g \<Longrightarrow>
   dom (snd (dijkstra_loop ar g dst U dp)) \<subseteq> fst ` set g"
proof (induction ar g dst U dp rule: dijkstra_loop.induct)
  case (1 ar g dst U dp)
  show ?case
  proof (cases "length U > 0")
    case False
    with "1.prems" show ?thesis by (subst dijkstra_loop.simps) simp
  next
    case len: True
    show ?thesis
    proof (cases "getMinDistanceNode ar U (fst dp)")
      case None
      with len "1.prems" show ?thesis by (subst dijkstra_loop.simps) simp
    next
      case (Some c)
      show ?thesis
      proof (cases "c = [] \<or> c = dst")
        case True
        with len Some "1.prems" show ?thesis by (subst dijkstra_loop.simps) auto
      next
        case False
        have eq: "dijkstra_loop ar g dst U dp =
                  dijkstra_loop ar g dst (removeAll c U) (processNeighbors ar c g (removeAll c U) dp)"
          using len Some False by (subst dijkstra_loop.simps) simp
        from "1.prems"(1) have u: "set (removeAll c U) \<subseteq> fst ` set g" by auto
        from processNeighbors_dom[of ar c g "removeAll c U" dp] "1.prems"(2) u
        have d: "dom (snd (processNeighbors ar c g (removeAll c U) dp)) \<subseteq> fst ` set g" by blast
        from "1.IH"[OF len Some False u d] show ?thesis unfolding eq .
      qed
    qed
  qed
qed

lemma dijkstra_path_nodes:
  assumes "dijkstra ar g src dst = Some (Some (pth, c))"
  shows "\<exists>rest. pth = src # rest \<and> set rest \<subseteq> fst ` set g"
proof -
  let ?u = "map fst g"
  let ?dp = "dijkstra_loop ar g dst ?u (init_distances ar ?u src, Map.empty)"
  from assms have "reconstructPath src dst (snd ?dp) = Some (Some pth)"
    by (auto simp: dijkstra_def Let_def split: option.splits)
  from reconstructPath_nodes[OF this] obtain rest where
    r: "pth = src # rest" "set rest \<subseteq> dom (snd ?dp)" by blast
  have "dom (snd ?dp) \<subseteq> fst ` set g"
    by (rule dijkstra_loop_dom) simp_all
  with r show ?thesis by blast
qed

lemma findPath_loop_nodes:
  "findPath_loop ar g sq i accPath accCost = Some (Some (pth, c)) \<Longrightarrow>
   (i = 0 \<longrightarrow> accPath = []) \<Longrightarrow> set accPath \<subseteq> insert (sq ! 0) (fst ` set g) \<Longrightarrow>
   set pth \<subseteq> insert (sq ! 0) (fst ` set g)"
proof (induction ar g sq i accPath accCost rule: findPath_loop.induct)
  case (1 ar g sq i accPath accCost)
  show ?case
  proof (cases "i < length sq - 1")
    case False
    with "1.prems" show ?thesis by (subst (asm) findPath_loop.simps) simp
  next
    case True
    from "1.prems"(1) True obtain seg c' where
      d: "dijkstra ar g (sq ! i) (sq ! (i + 1)) = Some (Some (seg, c'))" and
      rec: "findPath_loop ar g sq (i + 1) (if i = 0 then seg else accPath @ drop 1 seg) (js_plus ar accCost c')
              = Some (Some (pth, c))"
      by (subst (asm) findPath_loop.simps) (auto split: option.splits)
    from dijkstra_path_nodes[OF d] obtain rest where
      seg: "seg = sq ! i # rest" "set rest \<subseteq> fst ` set g" by blast
    have "set (if i = 0 then seg else accPath @ drop 1 seg) \<subseteq> insert (sq ! 0) (fst ` set g)"
      using seg "1.prems"(3) by auto
    from "1.IH"[OF True d refl refl rec _ this] show ?thesis by simp
  qed
qed

lemma findOptimalPath_nodes:
  assumes "findOptimalPath ar r = Some (Inr res)"
  shows "\<exists>g. buildGraph (edges r) (blockedNodes (constraints r)) = Inr g \<and>
             set (path res) \<subseteq> insert (start r) (fst ` set g)"
proof -
  obtain g where g: "buildGraph (edges r) (blockedNodes (constraints r)) = Inr g"
    using buildGraph_total by blast
  from assms g obtain c where
    "findPathWithRequiredStops ar g (start r) (end_node r) (requiredStops (constraints r))
       = Some (Some (path res, c))"
    by (auto simp: findOptimalPath_def Let_def split: sum.splits option.splits)
  then have "findPath_loop ar g ([start r] @ requiredStops (constraints r) @ [end_node r]) 0 [] (js_zero ar)
       = Some (Some (path res, c))"
    by (simp add: findPathWithRequiredStops_def)
  from findPath_loop_nodes[OF this] g show ?thesis by simp
qed

text \<open>
  When the start is not blocked, no blocked identifier occurs in a path that
  findOptimalPath returns: every node of the path but the start is a key of the graph.
\<close>

theorem blocked_nodes_avoided_when_start_unblocked:
  assumes "findOptimalPath ar r = Some (Inr res)" "start r \<notin> set (blockedNodes (constraints r))"
  shows "set (path res) \<inter> set (blockedNodes (constraints r)) = {}"
proof -
  from findOptimalPath_nodes[OF assms(1)] obtain g where
    g: "buildGraph (edges r) (blockedNodes (constraints r)) = Inr g"
    and sub: "set (path res) \<subseteq> insert (start r) (fst ` set g)" by blast
  from buildGraph_inv[OF g] have "\<forall>k \<in> fst ` set g. k \<notin> set (blockedNodes (constraints r))"
    by (auto simp: graph_inv_def)
  with sub assms(2) show ?thesis by blast
qed

text \<open>
  C4, at a failing input. With start and end both A, no required stops and A blocked,
  findOptimalPath succeeds and returns the path that consists of the blocked node A,
  with the cost \<^verbatim>\<open>0 + 0\<close>. The graph is empty, so the search compares no two numbers:
  this is so in every arithmetic and for every cost \<open>w\<close> of the edge.
\<close>

theorem blocked_start_returned:
  "findOptimalPath int_arith (request_blocked_start (Num 1)) =
     Some (Inr \<lparr>path = [''A''], totalCost = Num 0\<rparr>) \<and>
   findOptimalPath ar (request_blocked_start w) =
     Some (Inr \<lparr>path = [''A''], totalCost = js_plus ar (js_zero ar) (js_zero ar)\<rparr>) \<and>
   ''A'' \<in> set (blockedNodes (constraints (request_blocked_start w)))"
proof -
  have gen: "findOptimalPath ar (request_blocked_start w) =
     Some (Inr \<lparr>path = [''A''], totalCost = js_plus ar (js_zero ar) (js_zero ar)\<rparr>)"
    for ar :: "'b arith" and w
  proof -
    have v: "validateNodesExist (nodes (request_blocked_start w)) (edges (request_blocked_start w))
             (requiredStops (constraints (request_blocked_start w)) @
              [end_node (request_blocked_start w)]) = Inr ()"
      by (simp add: request_blocked_start_def validateNodesExist_def)
    have g: "buildGraph (edges (request_blocked_start w))
               (blockedNodes (constraints (request_blocked_start w))) = Inr []"
      by (simp add: request_blocked_start_def buildGraph_def buildGraph_step_def)
    have l: "dijkstra_loop ar [] ''A'' [] dp = dp" for dp :: "'b distances \<times> previous"
      by (subst dijkstra_loop.simps) simp
    have d: "dijkstra ar [] ''A'' ''A'' = Some (Some ([''A''], js_zero ar))"
      by (simp add: dijkstra_def Let_def l reconstructPath_self init_distances_src)
    have "findPathWithRequiredStops ar [] ''A'' ''A'' [] =
            Some (Some ([''A''], js_plus ar (js_zero ar) (js_zero ar)))"
      unfolding findPathWithRequiredStops_def
      by (subst findPath_loop.simps, simp add: d) (subst findPath_loop.simps, simp)
    with v g show ?thesis
      by (simp add: findOptimalPath_def Let_def request_blocked_start_def)
  qed
  have "findOptimalPath int_arith (request_blocked_start (Num 1)) =
     Some (Inr \<lparr>path = [''A''], totalCost = Num 0\<rparr>)"
    using gen[of int_arith "Num 1"] by simp
  moreover have "''A'' \<in> set (blockedNodes (constraints (request_blocked_start w)))"
    by (simp add: request_blocked_start_def)
  ultimately show ?thesis using gen[of ar w] by simp
qed

section \<open>The empty identifier as the end\<close>

text \<open>
  C10, as stated, fails on a request whose start and end are the empty identifier and
  whose nodes do not declare it: the failure is the one of the missing nodes, not the one
  of no path.
\<close>

theorem empty_id_undeclared_counterexample:
  "start request_empty_id_undeclared = [] \<and> end_node request_empty_id_undeclared = [] \<and>
   requiredStops (constraints request_empty_id_undeclared) = [] \<and>
   findOptimalPath int_arith request_empty_id_undeclared =
     Some (Inl (HttpException ''Missing required nodes: '' BAD_REQUEST)) \<and>
   findOptimalPath int_arith request_empty_id_undeclared \<noteq> Some (Inl (NoPathFound []))"
  by code_simp

text \<open>
  C10, amended: whatever the graph and the start are, the search to the empty identifier
  returns null, because the walk back gives up at once on a falsy end, and the loop of
  the search stops as soon as the empty identifier is the selected node; and a request
  with start and end both the empty identifier and no required stops that passes
  validateNodesExist fails with the message of no path.
\<close>

theorem empty_end_never_found:
  "dijkstra ar g s [] = Some None \<and>
   reconstructPath s [] p = Some None \<and>
   (getMinDistanceNode ar u (fst dp) = Some [] \<longrightarrow> dijkstra_loop ar g dst u dp = dp) \<and>
   (start r = [] \<and> end_node r = [] \<and> requiredStops (constraints r) = [] \<and>
    validateNodesExist (nodes r) (edges r) (requiredStops (constraints r) @ [end_node r]) = Inr ()
    \<longrightarrow> findOptimalPath ar r = Some (Inl (NoPathFound [])))"
proof (intro conjI impI)
  show "dijkstra ar g s [] = Some None" by (rule dijkstra_empty_end)
  show "reconstructPath s [] p = Some None" by (rule reconstructPath_empty)
next
  assume "getMinDistanceNode ar u (fst dp) = Some []"
  then show "dijkstra_loop ar g dst u dp = dp"
    by (subst dijkstra_loop.simps) simp
next
  assume a: "start r = [] \<and> end_node r = [] \<and> requiredStops (constraints r) = [] \<and>
    validateNodesExist (nodes r) (edges r) (requiredStops (constraints r) @ [end_node r]) = Inr ()"
  obtain g' where g': "buildGraph (edges r) (blockedNodes (constraints r)) = Inr g'"
    using buildGraph_total by blast
  have "findPathWithRequiredStops ar g' [] [] [] = Some None"
    unfolding findPathWithRequiredStops_def
    by (subst findPath_loop.simps) (simp add: dijkstra_empty_end)
  moreover from a have "start r = []" "end_node r = []" "requiredStops (constraints r) = []"
    "validateNodesExist (nodes r) (edges r) [[]] = Inr ()" by auto
  ultimately show "findOptimalPath ar r = Some (Inl (NoPathFound []))"
    using g' by (simp add: findOptimalPath_def Let_def NoPathFound_def)
qed

theorem empty_end_never_found_witness:
  "dijkstra int_arith (number_graph graph_with_empty_id) ''A'' [] = Some None \<and>
   dijkstra_loop int_arith (number_graph graph_with_empty_id) ''C'' ['''', ''C''] stalled_search =
     stalled_search \<and>
   findOptimalPath int_arith (request_empty_id (Num 1)) =
     Some (Inl (HttpException
       ''No valid path found that satisfies all constraints of '' BAD_REQUEST))"
proof -
  note t = empty_end_never_found[of int_arith "number_graph graph_with_empty_id" "''A''" Map.empty
             "['''', ''C'']" stalled_search "''C''" "request_empty_id (Num 1)"]
  have m: "getMinDistanceNode int_arith ['''', ''C''] (fst stalled_search) = Some []"
    by (simp add: getMinDistanceNode_def minStep_def get_number_def stalled_search_def)
  have v: "start (request_empty_id (Num 1)) = [] \<and> end_node (request_empty_id (Num 1)) = [] \<and>
           requiredStops (constraints (request_empty_id (Num 1))) = [] \<and>
           validateNodesExist (nodes (request_empty_id (Num 1))) (edges (request_empty_id (Num 1)))
             (requiredStops (constraints (request_empty_id (Num 1))) @
              [end_node (request_empty_id (Num 1))]) = Inr ()"
    by (simp add: request_empty_id_def validateNodesExist_def)
  from v m t show ?thesis
    by (auto simp: NoPathFound_def array_toString_def)
qed


end
